theory Spec2Isabelle
  imports Complex_Main "HOL-Library.Sublist"
begin

section \<open>Upload batch tracker (UploadResume.tsx)\<close>

text \<open>
  A JavaScript string is modelled as a \<open>string\<close> (a list of 8-bit characters, read as
  the code units below 256). A browser \<open>File\<close> is reduced to the three properties the
  code reads: \<open>name\<close>, \<open>size\<close> and \<open>type\<close>.
\<close>

record File =
  file_name :: string
  file_size :: nat
  file_type :: string

text \<open>\<open>interface FileWithPreview { id: string; file: File; preview: string }\<close>\<close>

record FileWithPreview =
  item_id :: string
  item_file :: File
  preview :: string

text \<open>\<open>status: "pending" | "uploading" | "completed" | "error"\<close>\<close>

datatype upload_status = Pending | Uploading | Completed | Failed

text \<open>
  \<open>interface FileUploadItem extends FileWithPreview { status; error?: string }\<close>.
  The optional \<open>error\<close> property is an \<open>option\<close>: \<open>None\<close> is \<open>undefined\<close>.
\<close>

record FileUploadItem = FileWithPreview +
  status :: upload_status
  error :: "string option"

text \<open>One entry of \<open>response.data.results\<close>: \<open>{ status: string; filename: string; detail?: string }\<close>.\<close>

record upload_result =
  result_status :: string
  filename :: string
  detail :: "string option"

text \<open>
  The value caught by \<open>catch (err)\<close>: an \<open>Error\<close> instance carrying its message, or
  any other thrown value, for which the code builds \<open>new Error("Upload failed")\<close>.
\<close>

datatype thrown = ErrorInstance string | OtherValue

fun error_message :: "thrown \<Rightarrow> string" where
  "error_message (ErrorInstance m) = m"
| "error_message OtherValue = ''Upload failed''"

text \<open>
  The calls made on the component's props \<open>onSuccess\<close> and \<open>onError\<close>, in order.
  Both props are taken as supplied and as returning normally.
\<close>

datatype callback = OnSuccess | OnError string

text \<open>What \<open>await api.post("/upload", form)\<close> yields: the reply's result list, or a throw.\<close>

datatype upload_outcome = Replied "upload_result list" | Threw thrown

text \<open>\<open>Array.prototype.join\<close> on strings.\<close>

fun join :: "string \<Rightarrow> string list \<Rightarrow> string" where
  "join sep [] = []"
| "join sep [x] = x"
| "join sep (x # y # ys) = x @ sep @ join sep (y # ys)"

text \<open>
  The first state update of \<open>handleUpload\<close> (lines 55-61): every item whose id is among
  the submitted ids becomes \<open>uploading\<close> with its error cleared.
\<close>

definition mark_uploading :: "string list \<Rightarrow> FileUploadItem list \<Rightarrow> FileUploadItem list" where
  "mark_uploading fileIdsToUpload prev =
     map (\<lambda>item. if item_id item \<in> set fileIdsToUpload
                  then item\<lparr>status := Uploading, error := None\<rparr>
                  else item) prev"

text \<open>
  The update on a reply (lines 81-93): for each item of the whole list, the first result
  whose \<open>filename\<close> equals the item's file name decides its status and error; an item
  with no such result is returned as it is.
\<close>

definition apply_results :: "upload_result list \<Rightarrow> FileUploadItem list \<Rightarrow> FileUploadItem list" where
  "apply_results results prev =
     map (\<lambda>item.
            case find (\<lambda>r. filename r = file_name (item_file item)) results of
              Some result \<Rightarrow>
                item\<lparr>status := (if result_status result = ''ok'' then Completed else Failed),
                     error := detail result\<rparr>
            | None \<Rightarrow> item) prev"

text \<open>The callbacks after a reply (lines 95-106).\<close>

definition notify :: "upload_result list \<Rightarrow> callback list" where
  "notify results =
     (if list_ex (\<lambda>r. result_status r = ''ok'') results then [OnSuccess] else []) @
     (if list_all (\<lambda>r. result_status r = ''error'') results
      then [OnError ''All uploads failed.'']
      else if list_ex (\<lambda>r. result_status r = ''error'') results
      then [OnError (''Some files failed to upload: '' @
                     join '', '' (map filename (filter (\<lambda>r. result_status r = ''error'') results)))]
      else [])"

text \<open>The update of the \<open>catch\<close> branch (lines 109-115).\<close>

definition mark_failed :: "string list \<Rightarrow> string \<Rightarrow> FileUploadItem list \<Rightarrow> FileUploadItem list" where
  "mark_failed fileIdsToUpload message prev =
     map (\<lambda>item. if item_id item \<in> set fileIdsToUpload
                  then item\<lparr>status := Failed, error := Some message\<rparr>
                  else item) prev"

text \<open>
  \<open>handleUpload\<close> as a whole, with the outcome of the request as a parameter: the new
  item list and the callbacks fired. An empty submission returns at once.
\<close>

definition handleUpload ::
  "(string \<times> File) list \<Rightarrow> upload_outcome \<Rightarrow> FileUploadItem list
     \<Rightarrow> FileUploadItem list \<times> callback list" where
  "handleUpload filesToUpload outcome prev =
     (if filesToUpload = [] then (prev, [])
      else
        let fileIdsToUpload = map fst filesToUpload;
            started = mark_uploading fileIdsToUpload prev
        in case outcome of
             Replied results \<Rightarrow> (apply_results results started, notify results)
           | Threw err \<Rightarrow>
               (mark_failed fileIdsToUpload (error_message err) started,
                [OnError (error_message err)]))"

text \<open>
  \<open>retryUpload\<close> (lines 168-172): the same path with a singleton batch. Its guard
  \<open>uploadFile.file instanceof File\<close> holds for every item made from a dropped or
  selected file, the only items this component creates.
\<close>

definition retryUpload ::
  "FileUploadItem \<Rightarrow> upload_outcome \<Rightarrow> FileUploadItem list
     \<Rightarrow> FileUploadItem list \<times> callback list" where
  "retryUpload uploadFile outcome prev =
     handleUpload [(item_id uploadFile, item_file uploadFile)] outcome prev"

section \<open>File intake (the \<open>useFileUpload\<close> hook, in CandidateList.tsx)\<close>

subsection \<open>String operations of the JavaScript library\<close>

text \<open>White space as \<open>String.prototype.trim\<close> and the regular expression class \<open>\s\<close>
  read it, among the code units below 256: tab, line feed, vertical tab, form feed,
  carriage return, space and the no-break space.\<close>

definition is_space :: "char \<Rightarrow> bool" where
  "is_space c = (of_char c \<in> {9, 10, 11, 12, 13, 32, 160 :: nat})"

definition trim :: "string \<Rightarrow> string" where
  "trim s = rev (dropWhile is_space (rev (dropWhile is_space s)))"

text \<open>\<open>String.prototype.split\<close> with a one-character separator: never an empty array.\<close>

fun split_on :: "char \<Rightarrow> string \<Rightarrow> string list" where
  "split_on sep [] = [[]]"
| "split_on sep (c # cs) =
     (if c = sep then [] # split_on sep cs
      else (case split_on sep cs of
              [] \<Rightarrow> [[c]]
            | piece # pieces \<Rightarrow> (c # piece) # pieces))"

definition startsWith :: "string \<Rightarrow> string \<Rightarrow> bool" where
  "startsWith s p = (take (length p) s = p)"

definition endsWith :: "string \<Rightarrow> string \<Rightarrow> bool" where
  "endsWith s p = (length p \<le> length s \<and> drop (length s - length p) s = p)"

text \<open>\<open>s.includes(sub)\<close>: \<open>sub\<close> occurs in \<open>s\<close> as a contiguous run.\<close>

fun includes_str :: "string \<Rightarrow> string \<Rightarrow> bool" where
  "includes_str [] sub = (sub = [])"
| "includes_str (c # cs) sub = (startsWith (c # cs) sub \<or> includes_str cs sub)"

text \<open>\<open>toLowerCase\<close> on the code units below 256 (the Latin-1 capitals; the
  multiplication sign 215 has no lower case).\<close>

definition lower_char :: "char \<Rightarrow> char" where
  "lower_char c =
     (let n = of_char c :: nat
      in if (65 \<le> n \<and> n \<le> 90) \<or> (192 \<le> n \<and> n \<le> 222 \<and> n \<noteq> 215)
         then char_of (n + 32) else c)"

definition toLowerCase :: "string \<Rightarrow> string" where
  "toLowerCase s = map lower_char s"

text \<open>A non-negative integer in a template literal: its decimal digits.\<close>

fun show_nat :: "nat \<Rightarrow> string" where
  "show_nat n =
     (if n < 10 then [''0123456789'' ! n]
      else show_nat (n div 10) @ [''0123456789'' ! (n mod 10)])"

subsection \<open>\<open>processFiles\<close> (lines 98-151)\<close>

text \<open>The options of the hook that \<open>processFiles\<close> reads.\<close>

record UseFileUploadOptions =
  maxFiles :: nat
  maxSize :: nat
  accept :: string
  multiple :: bool

text \<open>
  What the code takes from its environment and this model leaves uninterpreted:
  \<open>formatBytes\<close> (computed with floating-point logarithms), \<open>generateId\<close> (clock and
  random numbers) and \<open>URL.createObjectURL\<close>. The latter two are indexed by the number
  of files already accepted in the running call.
\<close>

record environment =
  formatBytes :: "nat \<Rightarrow> string"
  generateId :: "nat \<Rightarrow> string"
  createObjectURL :: "nat \<Rightarrow> string"

text \<open>The two state cells of the hook, \<open>files\<close> and \<open>errors\<close>.\<close>

record hook_state =
  files :: "FileWithPreview list"
  errors :: "string list"

text \<open>The test inside \<open>acceptedTypes.some(...)\<close> for one accepted type.\<close>

definition type_matches :: "File \<Rightarrow> string \<Rightarrow> bool" where
  "type_matches f type =
     (let fileType = file_type f;
          fileExtension = ''.'' @ toLowerCase (last (split_on CHR ''.'' (file_name f)))
      in if startsWith type ''.'' then fileExtension = type
         else if endsWith type ''/*'' then startsWith fileType (take (length type - 2) type)
         else fileType = type)"

text \<open>
  The three checks made on one incoming file, in the order of the source, given how many
  files the hook holds and how many this call has accepted so far: the message pushed on
  \<open>newErrors\<close>, or \<open>None\<close> when the file passes.
\<close>

definition rejection ::
  "UseFileUploadOptions \<Rightarrow> environment \<Rightarrow> nat \<Rightarrow> File \<Rightarrow> string option" where
  "rejection opts env held f =
     (if held \<ge> maxFiles opts
      then Some (''You can only upload a maximum of '' @ show_nat (maxFiles opts) @ '' files.'')
      else if file_size f > maxSize opts
      then Some (''File '' @ [CHR 0x22] @ file_name f @ [CHR 0x22] @ '' exceeds the maximum size of '' @
                 formatBytes env (maxSize opts) @ ''.'')
      else if accept opts \<noteq> ''*'' \<and>
              \<not> list_ex (type_matches f) (map trim (split_on CHR '','' (accept opts)))
      then Some (''File type for '' @ [CHR 0x22] @ file_name f @ [CHR 0x22] @
                 '' is not supported. Accepted types: '' @
                 accept opts)
      else None)"

text \<open>The \<open>forEach\<close> loop over the incoming files, with its two accumulators.\<close>

fun process_each ::
  "UseFileUploadOptions \<Rightarrow> environment \<Rightarrow> FileWithPreview list \<Rightarrow> File list
     \<Rightarrow> string list \<Rightarrow> FileWithPreview list \<Rightarrow> string list \<times> FileWithPreview list" where
  "process_each opts env held [] newErrors newFiles = (newErrors, newFiles)"
| "process_each opts env held (f # rest) newErrors newFiles =
     (case rejection opts env (length held + length newFiles) f of
        Some message \<Rightarrow> process_each opts env held rest (newErrors @ [message]) newFiles
      | None \<Rightarrow>
          process_each opts env held rest newErrors
            (newFiles @ [\<lparr>item_id = generateId env (length newFiles), item_file = f,
                          preview = createObjectURL env (length newFiles)\<rparr>]))"

text \<open>
  \<open>processFiles\<close>: the new hook state and the argument of the \<open>onFilesChange\<close> call, if
  the call is made. With any error the function returns before \<open>setFiles\<close>.
\<close>

definition processFiles ::
  "UseFileUploadOptions \<Rightarrow> environment \<Rightarrow> hook_state \<Rightarrow> File list option
     \<Rightarrow> hook_state \<times> FileWithPreview list option" where
  "processFiles opts env st incomingFiles =
     (case incomingFiles of
        None \<Rightarrow> (st, None)
      | Some incoming \<Rightarrow>
          (case process_each opts env (files st) incoming [] [] of
             (newErrors, newFiles) \<Rightarrow>
               if newErrors \<noteq> [] then (st\<lparr>errors := newErrors\<rparr>, None)
               else
                 let updatedFiles = (if multiple opts then files st @ newFiles else newFiles)
                 in (st\<lparr>errors := newErrors, files := updatedFiles\<rparr>, Some updatedFiles)))"

text \<open>The options \<open>UploadResume\<close> passes to the hook.\<close>

definition resume_options :: UseFileUploadOptions where
  "resume_options = \<lparr>maxFiles = 3, maxSize = 500 * 1024, accept = ''application/pdf'',
                      multiple = True\<rparr>"

text \<open>
  The component's \<open>onFilesChange\<close> (lines 138-160): every file of the list it is given
  becomes a \<open>pending\<close> item appended to the items, and all of them are handed to
  \<open>handleUpload\<close>.
\<close>

definition onFilesChange ::
  "FileWithPreview list \<Rightarrow> upload_outcome \<Rightarrow> FileUploadItem list
     \<Rightarrow> FileUploadItem list \<times> callback list" where
  "onFilesChange newFiles outcome prev =
     (if newFiles = [] then (prev, [])
      else
        let newUploadItems =
              map (\<lambda>newFile. \<lparr>item_id = item_id newFile, item_file = item_file newFile,
                               preview = preview newFile, status = Pending, error = None\<rparr>)
                  newFiles
        in handleUpload (map (\<lambda>item. (item_id item, item_file item)) newUploadItems)
             outcome (prev @ newUploadItems))"

text \<open>
  One drop or selection of files, end to end: \<open>processFiles\<close>, then the component's
  callback when the hook calls it. The state is the hook's state and the item list. The
  drop zone, the file input and the browse button are rendered only while the item list
  is empty (UploadResume.tsx, lines 183-225), so files reach \<open>processFiles\<close> only then.
\<close>

definition intake ::
  "environment \<Rightarrow> File list \<Rightarrow> upload_outcome \<Rightarrow> hook_state \<times> FileUploadItem list
     \<Rightarrow> (hook_state \<times> FileUploadItem list) \<times> callback list" where
  "intake env incoming outcome state =
     (if snd state \<noteq> [] then (state, [])
      else
        (case processFiles resume_options env (fst state) (Some incoming) of
           (st', None) \<Rightarrow> ((st', snd state), [])
         | (st', Some updatedFiles) \<Rightarrow>
             (case onFilesChange updatedFiles outcome (snd state) of
                (items', fired) \<Rightarrow> ((st', items'), fired))))"


section \<open>Response parser (ResultCard.tsx)\<close>

subsection \<open>Regular expressions\<close>

text \<open>
  The regular expressions of the parser, as a datatype with the constructs the source
  uses: a character class, the empty expression, sequence, alternative, the greedy and
  the lazy star, the capturing group (each expression of the source has at most one),
  and the two lookaheads.
\<close>

datatype regex =
    Chars "char \<Rightarrow> bool"
  | Empty
  | Seq regex regex
  | Alt regex regex
  | Star regex
  | Lazy regex
  | Group regex
  | Ahead regex
  | NotAhead regex

text \<open>
  The backtracking matcher. A state is the input still to be read and the text captured
  by the group so far; \<open>run r st\<close> lists the states in which \<open>r\<close> can end when started in
  \<open>st\<close>, in the order in which a backtracking engine tries them, so the head of the list
  is the match JavaScript reports. An iteration of a star that reads nothing is
  dropped, as the language's \<open>RepeatMatcher\<close> does. A lookahead reads nothing and is not
  re-entered.
\<close>

fun run :: "regex \<Rightarrow> string \<times> string option \<Rightarrow> (string \<times> string option) list" where
  "run (Chars p) st =
     (case fst st of
        [] \<Rightarrow> []
      | c # cs \<Rightarrow> if p c then [(cs, snd st)] else [])"
| "run Empty st = [st]"
| "run (Seq a b) st = concat (map (run b) (run a st))"
| "run (Alt a b) st = run a st @ run b st"
| "run (Star a) st =
     concat (map (\<lambda>st'. if length (fst st') < length (fst st) then run (Star a) st' else [])
                 (run a st)) @ [st]"
| "run (Lazy a) st =
     st # concat (map (\<lambda>st'. if length (fst st') < length (fst st) then run (Lazy a) st' else [])
                      (run a st))"
| "run (Group a) st =
     map (\<lambda>st'. (fst st', Some (take (length (fst st) - length (fst st')) (fst st))))
         (run a st)"
| "run (Ahead a) st = (case run a st of [] \<Rightarrow> [] | st' # _ \<Rightarrow> [(fst st, snd st')])"
| "run (NotAhead a) st = (case run a st of [] \<Rightarrow> [st] | _ # _ \<Rightarrow> [])"

text \<open>A literal string, \<open>r+\<close>, \<open>r?\<close> and \<open>r{2,}\<close>.\<close>

fun lit :: "string \<Rightarrow> regex" where
  "lit [] = Empty"
| "lit (c # cs) = Seq (Chars (\<lambda>x. x = c)) (lit cs)"

definition one_or_more :: "regex \<Rightarrow> regex" where
  "one_or_more r = Seq r (Star r)"

definition optional :: "regex \<Rightarrow> regex" where
  "optional r = Alt r Empty"

definition two_or_more :: "regex \<Rightarrow> regex" where
  "two_or_more r = Seq r (Seq r (Star r))"

text \<open>
  \<open>String.prototype.match\<close> with an expression that has no \<open>g\<close> flag: the first start
  position, from the left, at which the expression matches; the result is the matched
  text (\<open>match[0]\<close>) and the group (\<open>match[1]\<close>), or \<open>None\<close> for \<open>null\<close>.
\<close>

fun str_match :: "regex \<Rightarrow> string \<Rightarrow> (string \<times> string option) option" where
  "str_match r [] =
     (case run r ([], None) of
        [] \<Rightarrow> None
      | st # _ \<Rightarrow> Some ([], snd st))"
| "str_match r (c # cs) =
     (case run r (c # cs, None) of
        [] \<Rightarrow> str_match r cs
      | st # _ \<Rightarrow> Some (take (length (c # cs) - length (fst st)) (c # cs), snd st))"

text \<open>\<open>match[1]\<close> of a match result, when there is a match and the group took part.\<close>

definition group1 :: "(string \<times> string option) option \<Rightarrow> string option" where
  "group1 m = (case m of None \<Rightarrow> None | Some found \<Rightarrow> snd found)"

text \<open>
  \<open>String.prototype.split\<close> with a regular expression and no limit, on a non-empty
  string: the loop of the language specification over the positions \<open>q\<close>, where
  \<open>piece\<close> is the text from the last cut \<open>p\<close> up to \<open>q\<close>. A match that ends at \<open>p\<close> moves
  on by one character; another match closes the piece and the matched text is skipped
  (\<open>skip\<close> counts what is left of it to skip). The group is not spliced in: the one
  expression the source splits with has none.
\<close>

fun split_loop :: "regex \<Rightarrow> string \<Rightarrow> nat \<Rightarrow> string \<Rightarrow> string list" where
  "split_loop r piece skip [] = [piece]"
| "split_loop r piece skip (c # cs) =
     (if 0 < skip then split_loop r piece (skip - 1) cs
      else
        (case run r (c # cs, None) of
           [] \<Rightarrow> split_loop r (piece @ [c]) 0 cs
         | st # _ \<Rightarrow>
             let matched = length (c # cs) - length (fst st)
             in if matched = 0 \<and> piece = [] then split_loop r (piece @ [c]) 0 cs
                else if matched = 0 then piece # split_loop r [c] 0 cs
                else piece # split_loop r [] (matched - 1) cs))"

definition str_split :: "regex \<Rightarrow> string \<Rightarrow> string list" where
  "str_split r s =
     (if s = [] then (case run r ([], None) of [] \<Rightarrow> [[]] | _ # _ \<Rightarrow> [])
      else split_loop r [] 0 s)"

subsection \<open>Character classes\<close>

definition is_upper :: "char \<Rightarrow> bool" where
  "is_upper c = (let n = of_char c :: nat in 65 \<le> n \<and> n \<le> 90)"

definition is_lower :: "char \<Rightarrow> bool" where
  "is_lower c = (let n = of_char c :: nat in 97 \<le> n \<and> n \<le> 122)"

definition is_digit :: "char \<Rightarrow> bool" where
  "is_digit c = (let n = of_char c :: nat in 48 \<le> n \<and> n \<le> 57)"

text \<open>\<open>[A-Z\s]\<close>, \<open>[^\n]\<close>, \<open>[:\s]\<close>, \<open>.\<close> (anything but a line terminator), \<open>\d\<close>.\<close>

definition upper_or_space :: regex where
  "upper_or_space = Chars (\<lambda>c. is_upper c \<or> is_space c)"

definition not_newline :: regex where
  "not_newline = Chars (\<lambda>c. c \<noteq> CHR 0x0A)"

definition colon_or_space :: regex where
  "colon_or_space = Chars (\<lambda>c. c = CHR '':'' \<or> is_space c)"

definition dot :: regex where
  "dot = Chars (\<lambda>c. c \<noteq> CHR 0x0A \<and> c \<noteq> CHR 0x0D)"

definition digit :: regex where
  "digit = Chars is_digit"

subsection \<open>The expressions of the source\<close>

text \<open>\<open>/\*\*([A-Z][A-Z\s]+)\*\*/\<close>\<close>

definition re_name :: regex where
  "re_name = Seq (lit ''**'')
               (Seq (Group (Seq (Chars is_upper) (one_or_more upper_or_space))) (lit ''**''))"

text \<open>\<open>/(?=\*\*[A-Z][A-Z\s]+\*\*)/g\<close>\<close>

definition re_header :: regex where
  "re_header = Ahead (Seq (lit ''**'')
                       (Seq (Chars is_upper) (Seq (one_or_more upper_or_space) (lit ''**''))))"

text \<open>\<open>/\*\*Email\*\*:\s*([^\n]+)/\<close> and \<open>/\*\*Phone\*\*:\s*([^\n]+)/\<close>\<close>

definition re_email :: regex where
  "re_email = Seq (lit ''**Email**:'') (Seq (Star (Chars is_space)) (Group (one_or_more not_newline)))"

definition re_phone :: regex where
  "re_phone = Seq (lit ''**Phone**:'') (Seq (Star (Chars is_space)) (Group (one_or_more not_newline)))"

text \<open>\<open>/CGPA[^\d]*(\d+\.?\d*)/\<close>\<close>

definition re_cgpa :: regex where
  "re_cgpa = Seq (lit ''CGPA'')
               (Seq (Star (Chars (\<lambda>c. \<not> is_digit c)))
                  (Group (Seq (one_or_more digit) (Seq (optional (lit ''.'')) (Star digit)))))"

text \<open>\<open>/(\d+)%/\<close>\<close>

definition re_percentage :: regex where
  "re_percentage = Seq (Group (one_or_more digit)) (lit ''%'')"

text \<open>\<open>/\*\*.*?Education.*?\*\*[:\s]*([^\n]+(?:\n(?!\*\*[A-Z]).*)*)/\<close>\<close>

definition re_education :: regex where
  "re_education =
     Seq (lit ''**'') (Seq (Lazy dot) (Seq (lit ''Education'') (Seq (Lazy dot) (Seq (lit ''**'')
       (Seq (Star colon_or_space)
          (Group (Seq (one_or_more not_newline)
             (Star (Seq (lit [CHR 0x0A])
                (Seq (NotAhead (Seq (lit ''**'') (Chars is_upper))) (Star dot)))))))))))"

text \<open>\<open>/\*\*.*?Experience.*?\*\*[:\s]*([^\n]+(?:\n(?!\*\*[A-Z]|\*\*Skills).*)*)/\<close>\<close>

definition re_experience :: regex where
  "re_experience =
     Seq (lit ''**'') (Seq (Lazy dot) (Seq (lit ''Experience'') (Seq (Lazy dot) (Seq (lit ''**'')
       (Seq (Star colon_or_space)
          (Group (Seq (one_or_more not_newline)
             (Star (Seq (lit [CHR 0x0A])
                (Seq (NotAhead (Alt (Seq (lit ''**'') (Chars is_upper)) (lit ''**Skills'')))
                   (Star dot)))))))))))"

text \<open>\<open>/\*\*Skills\*\*[:\s]*([^\n]+)/\<close>\<close>

definition re_skills :: regex where
  "re_skills = Seq (lit ''**Skills**'') (Seq (Star colon_or_space) (Group (one_or_more not_newline)))"

text \<open>\<open>/\*\*.*?Education.*?\*\*.*?([^\n]+(?:\n(?!\*\*).*)*)/\<close>\<close>

definition re_education_indented :: regex where
  "re_education_indented =
     Seq (lit ''**'') (Seq (Lazy dot) (Seq (lit ''Education'') (Seq (Lazy dot) (Seq (lit ''**'')
       (Seq (Lazy dot)
          (Group (Seq (one_or_more not_newline)
             (Star (Seq (lit [CHR 0x0A]) (Seq (NotAhead (lit ''**'')) (Star dot)))))))))))"

text \<open>\<open>/\*\*.*?Experience.*?\*\*.*?([^\n]+(?:\n(?!\*\*|This candidate).*)*)/\<close>\<close>

definition re_experience_indented :: regex where
  "re_experience_indented =
     Seq (lit ''**'') (Seq (Lazy dot) (Seq (lit ''Experience'') (Seq (Lazy dot) (Seq (lit ''**'')
       (Seq (Lazy dot)
          (Group (Seq (one_or_more not_newline)
             (Star (Seq (lit [CHR 0x0A])
                (Seq (NotAhead (Alt (lit ''**'') (lit ''This candidate''))) (Star dot)))))))))))"

text \<open>\<open>/This candidate has[^.]*\./\<close>\<close>

definition re_additional :: regex where
  "re_additional = Seq (lit ''This candidate has'')
                     (Seq (Star (Chars (\<lambda>c. c \<noteq> CHR ''.''))) (lit ''.''))"

text \<open>\<open>/([A-Z][A-Z\s]{2,})/\<close>\<close>

definition re_fallback_name :: regex where
  "re_fallback_name = Group (Seq (Chars is_upper) (two_or_more upper_or_space))"

text \<open>\<open>/([a-zA-Z0-9._%+-]+@[a-zA-Z0-9.-]+\.[a-zA-Z]{2,})/\<close>\<close>

definition re_fallback_email :: regex where
  "re_fallback_email =
     Group (Seq (one_or_more (Chars (\<lambda>c. is_lower c \<or> is_upper c \<or> is_digit c \<or> c \<in> set ''._%+-'')))
       (Seq (lit ''@'')
          (Seq (one_or_more (Chars (\<lambda>c. is_lower c \<or> is_upper c \<or> is_digit c \<or> c \<in> set ''.-'')))
             (Seq (lit ''.'') (two_or_more (Chars (\<lambda>c. is_lower c \<or> is_upper c)))))))"

text \<open>\<open>/Skills[:\s]*([^\n.]+)/\<close>\<close>

definition re_fallback_skills :: regex where
  "re_fallback_skills =
     Seq (lit ''Skills'')
       (Seq (Star colon_or_space) (Group (one_or_more (Chars (\<lambda>c. c \<noteq> CHR 0x0A \<and> c \<noteq> CHR ''.'')))))"

text \<open>
  \<open>.replace(/^\s*-\s*/, "")\<close>: without the \<open>m\<close> flag the anchor admits a match at the
  start of the string only, so the one attempt is made there and the matched text is cut.
\<close>

definition strip_bullet :: "string \<Rightarrow> string" where
  "strip_bullet s =
     (case run (Seq (Star (Chars is_space)) (Seq (lit ''-'') (Star (Chars is_space)))) (s, None) of
        [] \<Rightarrow> s
      | st # _ \<Rightarrow> fst st)"

text \<open>
  Whether the group takes part in every match of an expression. It does in every
  expression whose \<open>match[1]\<close> the source reads, so \<open>match[1]\<close> is never \<open>undefined\<close>
  there.
\<close>

fun sets_group :: "regex \<Rightarrow> bool" where
  "sets_group (Group a) = True"
| "sets_group (Seq a b) = (sets_group a \<or> sets_group b)"
| "sets_group (Alt a b) = (sets_group a \<and> sets_group b)"
| "sets_group r = False"

subsection \<open>The three grammars\<close>

text \<open>The object the parsers build.\<close>

record CandidateData =
  name :: string
  email :: string
  phone :: string
  cgpa :: string
  percentage :: string
  education :: string
  experience :: string
  skills :: "string list"
  additionalInfo :: string

text \<open>
  A field set from the group of a match when there is one, and left at its initial value
  otherwise: \<open>const m = s.match(re); if (m) { field = f(m[1]) }\<close>.
\<close>

definition from_group :: "regex \<Rightarrow> string \<Rightarrow> (string \<Rightarrow> 'a) \<Rightarrow> 'a \<Rightarrow> 'a" where
  "from_group r s f initial = (case group1 (str_match r s) of None \<Rightarrow> initial | Some g \<Rightarrow> f g)"

text \<open>\<open>.split(",").map((s) => s.trim()).filter((s) => s)\<close>\<close>

definition skill_list :: "string \<Rightarrow> string list" where
  "skill_list g = filter (\<lambda>s. s \<noteq> []) (map trim (split_on CHR '','' g))"

definition parseCandidateSection :: "string \<Rightarrow> CandidateData" where
  "parseCandidateSection sect =
     \<lparr>name = from_group re_name sect trim [],
      email = from_group re_email sect trim [],
      phone = from_group re_phone sect trim [],
      cgpa = from_group re_cgpa sect (\<lambda>g. g) [],
      percentage = from_group re_percentage sect (\<lambda>g. g @ ''%'') [],
      education = from_group re_education sect trim [],
      experience = from_group re_experience sect trim [],
      skills = from_group re_skills sect skill_list [],
      additionalInfo =
        trim (join '' '' (filter (\<lambda>line. trim line \<noteq> [] \<and> \<not> includes_str line ''**'')
                                 (split_on CHR 0x0A sect)))\<rparr>"

definition parseIndentedFormat :: "string \<Rightarrow> CandidateData" where
  "parseIndentedFormat response =
     \<lparr>name = from_group re_name response trim [],
      email = from_group re_email response trim [],
      phone = from_group re_phone response trim [],
      cgpa = from_group re_cgpa response (\<lambda>g. g) [],
      percentage = from_group re_percentage response (\<lambda>g. g @ ''%'') [],
      education = from_group re_education_indented response (\<lambda>g. strip_bullet (trim g)) [],
      experience = from_group re_experience_indented response (\<lambda>g. strip_bullet (trim g)) [],
      skills = from_group re_skills response skill_list [],
      additionalInfo =
        (case str_match re_additional response of None \<Rightarrow> [] | Some found \<Rightarrow> fst found)\<rparr>"

definition parseFallbackFormat :: "string \<Rightarrow> CandidateData" where
  "parseFallbackFormat response =
     \<lparr>name = from_group re_fallback_name response trim ''Candidate'',
      email = from_group re_fallback_email response (\<lambda>g. g) [],
      phone = [],
      cgpa = [],
      percentage = [],
      education = [],
      experience = [],
      skills = from_group re_fallback_skills response skill_list [],
      additionalInfo = response\<rparr>"

text \<open>
  \<open>parseLLMResponse\<close>: the grammar is chosen by the two \<open>includes\<close> tests, and a
  candidate is pushed only when its name is not the empty string.
\<close>

definition push_named :: "CandidateData \<Rightarrow> CandidateData list" where
  "push_named candidate = (if name candidate \<noteq> [] then [candidate] else [])"

definition parseLLMResponse :: "string \<Rightarrow> CandidateData list" where
  "parseLLMResponse response =
     (if includes_str response ''- **'' \<and> includes_str response ''**:''
      then push_named (parseIndentedFormat response)
      else if includes_str response ''**'' \<and> includes_str response ''**''
      then concat (map (\<lambda>sect. if trim sect \<noteq> [] then push_named (parseCandidateSection sect)
                                else [])
                       (str_split re_header response))
      else push_named (parseFallbackFormat response))"

subsection \<open>Notions used to state the properties\<close>

text \<open>
  A text that starts with a bold all-capitals header: two asterisks, a capital letter,
  at least one more capital letter or white-space character, two asterisks. And a text
  that contains such a header somewhere.
\<close>

abbreviation starts_with_header :: "string \<Rightarrow> bool" where
  "starts_with_header t \<equiv>
     \<exists>c w post. t = ''**'' @ c # w @ ''**'' @ post \<and> is_upper c \<and> w \<noteq> [] \<and>
       (\<forall>x \<in> set w. is_upper x \<or> is_space x)"

abbreviation contains_header :: "string \<Rightarrow> bool" where
  "contains_header s \<equiv>
     \<exists>pre c w post. s = pre @ ''**'' @ c # w @ ''**'' @ post \<and> is_upper c \<and> w \<noteq> [] \<and>
       (\<forall>x \<in> set w. is_upper x \<or> is_space x)"

text \<open>
  The positions of the input at which the sections after the first begin, for a list of
  sections that make up the input.
\<close>

abbreviation cut_offsets :: "string list \<Rightarrow> nat set" where
  "cut_offsets sections \<equiv> (\<lambda>k. length (concat (take k sections))) ` {0<..<length sections}"

section \<open>Sample data\<close>

text \<open>Files, items and environments used where a statement is evaluated on a concrete input.\<close>

definition sample_pdf :: "string \<Rightarrow> nat \<Rightarrow> File" where
  "sample_pdf n sz = \<lparr>file_name = n, file_size = sz, file_type = ''application/pdf''\<rparr>"

definition sample_item :: "string \<Rightarrow> string \<Rightarrow> upload_status \<Rightarrow> string option \<Rightarrow> FileUploadItem" where
  "sample_item i n st e = \<lparr>item_id = i, item_file = sample_pdf n 1000, preview = ''blob:'' @ i, status = st, error = e\<rparr>"

definition sample_env :: "string \<Rightarrow> environment" where
  "sample_env tag = \<lparr>formatBytes = (\<lambda>n. ''500 KB''), generateId = (\<lambda>k. ''file-'' @ tag @ show_nat k), createObjectURL = (\<lambda>k. ''blob:'' @ tag @ show_nat k)\<rparr>"

section \<open>Properties of the upload batch tracker\<close>

subsection \<open>The three state updates, item by item\<close>

lemma mark_uploading_nth:
  "i < length prev \<Longrightarrow>
   mark_uploading ids prev ! i =
     (if item_id (prev ! i) \<in> set ids then (prev ! i)\<lparr>status := Uploading, error := None\<rparr>
      else prev ! i)"
  by (simp add: mark_uploading_def)

lemma mark_failed_nth:
  "i < length prev \<Longrightarrow>
   mark_failed ids m prev ! i =
     (if item_id (prev ! i) \<in> set ids then (prev ! i)\<lparr>status := Failed, error := Some m\<rparr>
      else prev ! i)"
  by (simp add: mark_failed_def)

lemma apply_results_nth:
  "i < length prev \<Longrightarrow>
   apply_results results prev ! i =
     (case find (\<lambda>r. filename r = file_name (item_file (prev ! i))) results of
        Some result \<Rightarrow>
          (prev ! i)\<lparr>status := (if result_status result = ''ok'' then Completed else Failed),
                     error := detail result\<rparr>
      | None \<Rightarrow> prev ! i)"
  by (simp add: apply_results_def)

lemma length_mark_uploading [simp]: "length (mark_uploading ids prev) = length prev"
  by (simp add: mark_uploading_def)

lemma length_mark_failed [simp]: "length (mark_failed ids m prev) = length prev"
  by (simp add: mark_failed_def)

lemma length_apply_results [simp]: "length (apply_results rs prev) = length prev"
  by (simp add: apply_results_def)


lemma join_nonempty:
  "xs \<noteq> [] \<Longrightarrow> join sep xs = hd xs @ concat (map (\<lambda>x. sep @ x) (tl xs))"
  by (induction sep xs rule: join.induct) auto

subsection \<open>Transport failure\<close>

text \<open>
  Claim C4. When the combined request fails outright, \<open>handleUpload\<close> leaves the list
  with every item whose id was submitted in status \<open>error\<close>, its error field the message
  of the thrown \<open>Error\<close> (the text \<open>Upload failed\<close> when the thrown value is no \<open>Error\<close>),
  and every other item exactly as it was; \<open>onError\<close> is called once with that message.
\<close>

theorem handleUpload_transport_failure:
  assumes "filesToUpload \<noteq> []" and "i < length prev"
  shows "length (fst (handleUpload filesToUpload (Threw thrown_value) prev)) = length prev \<and>
         fst (handleUpload filesToUpload (Threw (ErrorInstance m)) prev) ! i =
           (if item_id (prev ! i) \<in> fst ` set filesToUpload
            then (prev ! i)\<lparr>status := Failed, error := Some m\<rparr>
            else prev ! i) \<and>
         snd (handleUpload filesToUpload (Threw (ErrorInstance m)) prev) = [OnError m] \<and>
         fst (handleUpload filesToUpload (Threw OtherValue) prev) ! i =
           (if item_id (prev ! i) \<in> fst ` set filesToUpload
            then (prev ! i)\<lparr>status := Failed, error := Some ''Upload failed''\<rparr>
            else prev ! i) \<and>
         snd (handleUpload filesToUpload (Threw OtherValue) prev) = [OnError ''Upload failed'']"
  using assms by (simp add: handleUpload_def Let_def mark_failed_nth mark_uploading_nth)

text \<open>
  Claim C4 on a batch of one pending item beside a completed one, the request failing
  with \<open>Request failed with status code 502\<close>.
\<close>

theorem handleUpload_transport_failure_witness:
  "fst (handleUpload [(''2'', sample_pdf ''b.pdf'' 1000)]
          (Threw (ErrorInstance ''Request failed with status code 502''))
          [sample_item ''1'' ''a.pdf'' Completed None,
           sample_item ''2'' ''b.pdf'' Pending None]) =
     [sample_item ''1'' ''a.pdf'' Completed None,
      sample_item ''2'' ''b.pdf'' Failed (Some ''Request failed with status code 502'')]"
proof -
  let ?fs = "[(''2'', sample_pdf ''b.pdf'' 1000)]"
  let ?prev = "[sample_item ''1'' ''a.pdf'' Completed None, sample_item ''2'' ''b.pdf'' Pending None]"
  let ?m = "''Request failed with status code 502''"
  let ?r = "fst (handleUpload ?fs (Threw (ErrorInstance ?m)) ?prev)"
  have ne: "?fs \<noteq> []" by simp
  have "length ?r = 2" and "?r ! 0 = sample_item ''1'' ''a.pdf'' Completed None"
    using handleUpload_transport_failure[OF ne, of 0 ?prev "ErrorInstance ?m" ?m]
    by (simp_all add: sample_item_def)
  moreover have "?r ! 1 = sample_item ''2'' ''b.pdf'' Failed (Some ?m)"
    using handleUpload_transport_failure[OF ne, of 1 ?prev "ErrorInstance ?m" ?m]
    by (simp add: sample_item_def)
  ultimately show ?thesis
    by (simp add: list_eq_iff_nth_eq less_Suc_eq numeral_2_eq_2)
qed

subsection \<open>Notifications after a reply\<close>

text \<open>
  Claim C5. For every result list received in reply to a batch: \<open>onSuccess\<close> is called
  exactly when some result is \<open>"ok"\<close>; \<open>onError\<close> is called when some result is
  \<open>"error"\<close>, and when not all results are errors its message is
  \<open>Some files failed to upload: \<close> followed by the file names of the failed results,
  in the order of the reply, each but the first preceded by a comma and a space; when
  there are both an \<open>"ok"\<close> and an \<open>"error"\<close> result, both are called.
\<close>

theorem reply_notifications:
  assumes "filesToUpload \<noteq> []"
  shows "(let fired = snd (handleUpload filesToUpload (Replied results) prev);
              some_ok = (\<exists>r \<in> set results. result_status r = ''ok'');
              some_error = (\<exists>r \<in> set results. result_status r = ''error'');
              all_error = (\<forall>r \<in> set results. result_status r = ''error'');
              failed = map filename (filter (\<lambda>r. result_status r = ''error'') results)
          in (OnSuccess \<in> set fired \<longleftrightarrow> some_ok) \<and>
             (some_error \<longrightarrow> (\<exists>m. OnError m \<in> set fired)) \<and>
             (some_error \<and> \<not> all_error \<longrightarrow>
                failed \<noteq> [] \<and>
                fired = (if some_ok then [OnSuccess] else []) @
                  [OnError (''Some files failed to upload: '' @ hd failed @
                            concat (map (\<lambda>n. '', '' @ n) (tl failed)))]) \<and>
             (some_ok \<and> some_error \<longrightarrow> OnSuccess \<in> set fired \<and> (\<exists>m. OnError m \<in> set fired)))"
proof -
  let ?failed = "map filename (filter (\<lambda>r. result_status r = ''error'') results)"
  have failed: "?failed \<noteq> []" if "\<exists>r \<in> set results. result_status r = ''error''"
    using that by (auto simp: filter_empty_conv)
  have "join '', '' ?failed = hd ?failed @ concat (map (\<lambda>n. '', '' @ n) (tl ?failed))"
    if "?failed \<noteq> []"
    using that by (simp add: join_nonempty)
  with failed show ?thesis
    using assms
    by (auto simp: handleUpload_def Let_def notify_def list_ex_iff list_all_iff)
qed

text \<open>
  Claim C5 on the reply \<open>[ok, error, error]\<close> to a batch of three files: both callbacks
  fire, the message names both failed files, and the items end \<open>completed\<close>, \<open>error\<close>,
  \<open>error\<close>.
\<close>

theorem reply_notifications_witness:
  "snd (handleUpload [(''1'', sample_pdf ''a.pdf'' 1000), (''2'', sample_pdf ''b.pdf'' 1000),
                       (''3'', sample_pdf ''c.pdf'' 1000)]
          (Replied [\<lparr>result_status = ''ok'', filename = ''a.pdf'', detail = None\<rparr>,
                    \<lparr>result_status = ''error'', filename = ''b.pdf'', detail = Some ''unreadable''\<rparr>,
                    \<lparr>result_status = ''error'', filename = ''c.pdf'', detail = Some ''too long''\<rparr>])
          [sample_item ''1'' ''a.pdf'' Pending None, sample_item ''2'' ''b.pdf'' Pending None,
           sample_item ''3'' ''c.pdf'' Pending None]) =
     [OnSuccess, OnError ''Some files failed to upload: b.pdf, c.pdf''] \<and>
   map status
     (fst (handleUpload [(''1'', sample_pdf ''a.pdf'' 1000), (''2'', sample_pdf ''b.pdf'' 1000),
                       (''3'', sample_pdf ''c.pdf'' 1000)]
          (Replied [\<lparr>result_status = ''ok'', filename = ''a.pdf'', detail = None\<rparr>,
                    \<lparr>result_status = ''error'', filename = ''b.pdf'', detail = Some ''unreadable''\<rparr>,
                    \<lparr>result_status = ''error'', filename = ''c.pdf'', detail = Some ''too long''\<rparr>])
          [sample_item ''1'' ''a.pdf'' Pending None, sample_item ''2'' ''b.pdf'' Pending None,
           sample_item ''3'' ''c.pdf'' Pending None])) =
     [Completed, Failed, Failed]"
proof -
  let ?batch = "[(''1'', sample_pdf ''a.pdf'' 1000), (''2'', sample_pdf ''b.pdf'' 1000),
                 (''3'', sample_pdf ''c.pdf'' 1000)]"
  let ?reply = "[\<lparr>result_status = ''ok'', filename = ''a.pdf'', detail = None\<rparr>,
                 \<lparr>result_status = ''error'', filename = ''b.pdf'', detail = Some ''unreadable''\<rparr>,
                 \<lparr>result_status = ''error'', filename = ''c.pdf'', detail = Some ''too long''\<rparr>]"
  let ?items = "[sample_item ''1'' ''a.pdf'' Pending None, sample_item ''2'' ''b.pdf'' Pending None,
                 sample_item ''3'' ''c.pdf'' Pending None]"
  have fired: "snd (handleUpload ?batch (Replied ?reply) ?items) =
                 [OnSuccess, OnError ''Some files failed to upload: b.pdf, c.pdf'']"
    using reply_notifications[of ?batch ?reply ?items] by (simp add: Let_def)
  have "map status (fst (handleUpload ?batch (Replied ?reply) ?items)) =
          [Completed, Failed, Failed]"
    by (simp add: handleUpload_def mark_uploading_def apply_results_def sample_item_def
        sample_pdf_def)
  with fired show ?thesis by simp
qed

subsection \<open>An item the reply does not mention\<close>



subsection \<open>Retry\<close>

text \<open>
  What a retry does to each item of the list: every item with the retried id becomes
  \<open>uploading\<close>; on a reply, every item whose file name has a result takes its status
  and detail from the first such result, whatever its id; on a transport failure only
  the items with the retried id are marked.
\<close>

lemma retryUpload_nth:
  assumes "j < length prev"
  shows "fst (retryUpload uploadFile (Replied results) prev) ! j =
           (case find (\<lambda>r. filename r = file_name (item_file (prev ! j))) results of
              Some result \<Rightarrow>
                (prev ! j)\<lparr>status := (if result_status result = ''ok'' then Completed else Failed),
                           error := detail result\<rparr>
            | None \<Rightarrow>
                if item_id (prev ! j) = item_id uploadFile
                then (prev ! j)\<lparr>status := Uploading, error := None\<rparr> else prev ! j) \<and>
         fst (retryUpload uploadFile (Threw (ErrorInstance m)) prev) ! j =
           (if item_id (prev ! j) = item_id uploadFile
            then (prev ! j)\<lparr>status := Failed, error := Some m\<rparr>
            else prev ! j)"
proof -
  let ?ids = "[item_id uploadFile]"
  have started: "mark_uploading ?ids prev ! j =
           (if item_id (prev ! j) = item_id uploadFile
            then (prev ! j)\<lparr>status := Uploading, error := None\<rparr> else prev ! j)"
    using assms by (simp add: mark_uploading_nth)
  have name_kept: "file_name (item_file (mark_uploading ?ids prev ! j)) =
                   file_name (item_file (prev ! j))"
    by (simp add: started)
  have reply: "fst (retryUpload uploadFile (Replied results) prev) ! j =
           (case find (\<lambda>r. filename r = file_name (item_file (prev ! j))) results of
              Some result \<Rightarrow>
                (prev ! j)\<lparr>status := (if result_status result = ''ok'' then Completed else Failed),
                           error := detail result\<rparr>
            | None \<Rightarrow>
                if item_id (prev ! j) = item_id uploadFile
                then (prev ! j)\<lparr>status := Uploading, error := None\<rparr> else prev ! j)"
    using assms
    by (simp add: retryUpload_def handleUpload_def Let_def apply_results_nth name_kept)
       (simp add: started split: option.split)
  have failure: "fst (retryUpload uploadFile (Threw (ErrorInstance m)) prev) ! j =
           (if item_id (prev ! j) = item_id uploadFile
            then (prev ! j)\<lparr>status := Failed, error := Some m\<rparr>
            else prev ! j)"
    using assms
    by (simp add: retryUpload_def handleUpload_def Let_def mark_failed_nth started)
  show ?thesis
    using reply failure by simp
qed

text \<open>
  Claim C8 fails on the code. Two files of the same name are dropped together while the
  network is down, so both items end in \<open>error\<close>. The second is retried and the server
  accepts it. The update on the reply runs over the whole list and matches by file name
  only, so the first item, which has another id and was not submitted again, turns
  \<open>completed\<close> and loses its error text as well.
\<close>

theorem retry_rewrites_item_of_same_name:
  "(let s0 = (\<lparr>files = [], errors = []\<rparr>, []);
        s1 = fst (intake (sample_env ''a'') [sample_pdf ''cv.pdf'' 1000, sample_pdf ''cv.pdf'' 2000]
                    (Threw (ErrorInstance ''Network Error'')) s0);
        retried = snd s1 ! 1;
        items = fst (retryUpload retried
                       (Replied [\<lparr>result_status = ''ok'', filename = ''cv.pdf'', detail = None\<rparr>])
                       (snd s1))
    in map (\<lambda>item. (item_id item, status item, error item)) (snd s1) =
         [(''file-a0'', Failed, Some ''Network Error''),
          (''file-a1'', Failed, Some ''Network Error'')] \<and>
       item_id retried = ''file-a1'' \<and>
       map (\<lambda>item. (item_id item, status item, error item)) items =
         [(''file-a0'', Completed, None), (''file-a1'', Completed, None)])"
  by (simp add: intake_def processFiles_def resume_options_def sample_env_def sample_pdf_def
      rejection_def type_matches_def startsWith_def endsWith_def trim_def is_space_def
      toLowerCase_def onFilesChange_def retryUpload_def handleUpload_def mark_uploading_def
      apply_results_def mark_failed_def Let_def)

subsection \<open>Leaving \<open>completed\<close>\<close>


section \<open>Properties of file intake\<close>

lemma process_each_errors_grow:
  "process_each opts env held incoming errs news = (errs', news') \<Longrightarrow> errs \<noteq> [] \<Longrightarrow> errs' \<noteq> []"
  by (induction incoming arbitrary: errs news) (auto split: option.splits)

lemma process_each_count:
  "process_each opts env held incoming errs news = (errs', news') \<Longrightarrow>
   length errs' + length news' = length errs + length news + length incoming"
  by (induction incoming arbitrary: errs news) (auto split: option.splits)

lemma process_each_clean:
  "process_each opts env held incoming errs news = ([], news') \<Longrightarrow>
   errs = [] \<and> map item_file news' = map item_file news @ incoming \<and>
   (\<forall>f \<in> set incoming. \<exists>n. rejection opts env n f = None) \<and>
   (incoming \<noteq> [] \<longrightarrow> length held + length news + length incoming \<le> maxFiles opts)"
proof (induction incoming arbitrary: errs news)
  case Nil
  then show ?case by simp
next
  case (Cons f rest)
  show ?case
  proof (cases "rejection opts env (length held + length news) f")
    case None
    let ?n = "news @ [\<lparr>item_id = generateId env (length news), item_file = f,
                          preview = createObjectURL env (length news)\<rparr>]"
    from Cons.prems None have step: "process_each opts env held rest errs ?n = ([], news')"
      by simp
    note ih = Cons.IH[OF step]
    from None have cap: "length held + length news < maxFiles opts"
      by (auto simp: rejection_def split: if_splits)
    show ?thesis
    proof (cases "rest = []")
      case True
      with ih None cap show ?thesis by auto
    next
      case False
      with ih None show ?thesis by auto
    qed
  next
    case (Some m)
    with Cons.prems have "process_each opts env held rest (errs @ [m]) news = ([], news')"
      by simp
    from process_each_errors_grow[OF this] show ?thesis by simp
  qed
qed

lemma rejection_size: "maxSize opts < file_size f \<Longrightarrow> rejection opts env n f \<noteq> None"
  by (simp add: rejection_def)

lemma rejection_type:
  "accept opts \<noteq> ''*'' \<Longrightarrow>
   \<not> list_ex (type_matches f) (map trim (split_on CHR '','' (accept opts))) \<Longrightarrow>
   rejection opts env n f \<noteq> None"
  by (simp add: rejection_def)

lemma process_each_accepts:
  assumes "\<forall>f \<in> set incoming. file_size f \<le> maxSize opts \<and>
             (accept opts = ''*'' \<or>
              list_ex (type_matches f) (map trim (split_on CHR '','' (accept opts))))"
    and "incoming = [] \<or> length held + length news + length incoming \<le> maxFiles opts"
  shows "fst (process_each opts env held incoming errs news) = errs"
  using assms
proof (induction incoming arbitrary: news)
  case Nil
  then show ?case by simp
next
  case (Cons f rest)
  from Cons.prems have fits: "length held + length news < maxFiles opts" by simp
  with Cons.prems(1) have "rejection opts env (length held + length news) f = None"
    by (auto simp: rejection_def)
  moreover from Cons.prems
  have "fst (process_each opts env held rest errs
               (news @ [\<lparr>item_id = generateId env (length news), item_file = f,
                           preview = createObjectURL env (length news)\<rparr>])) = errs"
    by (intro Cons.IH) auto
  ultimately show ?case by simp
qed

text \<open>
  Claim C1 does not hold as stated: one file over the size cap keeps its valid sibling
  out as well. \<open>ok.pdf\<close> passes every check, yet the hook's file list stays empty and
  \<open>onFilesChange\<close> is not called, so nothing is uploaded.
\<close>

theorem processFiles_counterexample:
  "processFiles resume_options (sample_env ''a'') \<lparr>files = [], errors = []\<rparr>
     (Some [sample_pdf ''big.pdf'' 600000, sample_pdf ''ok.pdf'' 1000]) =
   (\<lparr>files = [],
     errors = [''File '' @ [CHR 0x22] @ ''big.pdf'' @ [CHR 0x22] @
               '' exceeds the maximum size of 500 KB.'']\<rparr>, None) \<and>
   rejection resume_options (sample_env ''a'') 0 (sample_pdf ''ok.pdf'' 1000) = None"
  by (simp add: processFiles_def resume_options_def sample_env_def sample_pdf_def rejection_def
      type_matches_def startsWith_def endsWith_def trim_def is_space_def toLowerCase_def)

text \<open>
  Claim C1, amended. A submission is taken whole or not at all. The loop gives every
  incoming file either one message or one accepted entry. The error list stays empty
  exactly when every file is within the size cap and of an accepted type and the files
  held plus the incoming ones do not exceed the count cap; then all incoming files are
  added, in order, and the new list is handed to \<open>onFilesChange\<close>. Otherwise the error
  list is set to the messages of that submission and no file of it is added: the hook's
  files are unchanged and \<open>onFilesChange\<close> is not called.
\<close>

theorem processFiles_all_or_nothing:
  assumes "processFiles opts env st (Some incoming) = (st', called)"
  shows "\<exists>newFiles.
           process_each opts env (files st) incoming [] [] = (errors st', newFiles) \<and>
           length (errors st') + length newFiles = length incoming \<and>
           (errors st' = [] \<longleftrightarrow>
              (\<forall>f \<in> set incoming. file_size f \<le> maxSize opts \<and>
                 (accept opts = ''*'' \<or>
                  list_ex (type_matches f) (map trim (split_on CHR '','' (accept opts))))) \<and>
              (incoming = [] \<or> length (files st) + length incoming \<le> maxFiles opts)) \<and>
           (errors st' \<noteq> [] \<longrightarrow> files st' = files st \<and> called = None) \<and>
           (errors st' = [] \<longrightarrow>
              map item_file newFiles = incoming \<and>
              files st' = (if multiple opts then files st @ newFiles else newFiles) \<and>
              called = Some (files st'))"
proof -
  let ?pass = "(\<forall>f \<in> set incoming. file_size f \<le> maxSize opts \<and>
                 (accept opts = ''*'' \<or>
                  list_ex (type_matches f) (map trim (split_on CHR '','' (accept opts))))) \<and>
               (incoming = [] \<or> length (files st) + length incoming \<le> maxFiles opts)"
  obtain errs news where pe: "process_each opts env (files st) incoming [] [] = (errs, news)"
    by (cases "process_each opts env (files st) incoming [] []")
  from process_each_count[OF pe] have cnt: "length errs + length news = length incoming" by simp
  have pass_clean: "errs = []" if ?pass
    using process_each_accepts[of incoming opts "files st" "[]" env "[]"] that pe by simp
  show ?thesis
  proof (cases "errs = []")
    case True
    with pe have clean: "process_each opts env (files st) incoming [] [] = ([], news)" by simp
    note c = process_each_clean[OF clean]
    from assms pe True
    have st': "st' = st\<lparr>errors := [], files := (if multiple opts then files st @ news else news)\<rparr>"
      and called: "called = Some (if multiple opts then files st @ news else news)"
      by (auto simp: processFiles_def Let_def)
    have sizes: "\<forall>f \<in> set incoming. file_size f \<le> maxSize opts \<and>
                 (accept opts = ''*'' \<or>
                  list_ex (type_matches f) (map trim (split_on CHR '','' (accept opts))))"
    proof
      fix f assume "f \<in> set incoming"
      with c obtain n where "rejection opts env n f = None" by blast
      then show "file_size f \<le> maxSize opts \<and>
                 (accept opts = ''*'' \<or>
                  list_ex (type_matches f) (map trim (split_on CHR '','' (accept opts))))"
        by (auto simp: rejection_def split: if_splits)
    qed
    have cap: "incoming = [] \<or> length (files st) + length incoming \<le> maxFiles opts"
      using c by auto
    from c have "map item_file news = incoming" by simp
    with st' called sizes cap clean cnt True show ?thesis
      by (intro exI[of _ news]) auto
  next
    case False
    with assms pe have "st' = st\<lparr>errors := errs\<rparr>" and "called = None"
      by (auto simp: processFiles_def)
    with False cnt pe pass_clean show ?thesis
      by (intro exI[of _ news]) auto
  qed
qed

text \<open>
  Claim C1, amended, on three submissions to the empty hook: \<open>big.pdf\<close> with \<open>ok.pdf\<close>,
  and a text file with \<open>ok.pdf\<close>, of which nothing is added; and three files of exactly
  512000 bytes, which reach both caps and are all added.
\<close>

theorem processFiles_all_or_nothing_witness:
  "files (fst (processFiles resume_options (sample_env ''a'') \<lparr>files = [], errors = []\<rparr>
     (Some [sample_pdf ''big.pdf'' 600000, sample_pdf ''ok.pdf'' 1000]))) = [] \<and>
   snd (processFiles resume_options (sample_env ''a'') \<lparr>files = [], errors = []\<rparr>
     (Some [sample_pdf ''big.pdf'' 600000, sample_pdf ''ok.pdf'' 1000])) = None \<and>
   snd (processFiles resume_options (sample_env ''a'') \<lparr>files = [], errors = []\<rparr>
     (Some [\<lparr>file_name = ''notes.txt'', file_size = 10, file_type = ''text/plain''\<rparr>,
            sample_pdf ''ok.pdf'' 1000])) = None \<and>
   errors (fst (processFiles resume_options (sample_env ''a'') \<lparr>files = [], errors = []\<rparr>
     (Some [sample_pdf ''a.pdf'' 512000, sample_pdf ''b.pdf'' 512000,
            sample_pdf ''c.pdf'' 512000]))) = [] \<and>
   map item_file (files (fst (processFiles resume_options (sample_env ''a'')
     \<lparr>files = [], errors = []\<rparr>
     (Some [sample_pdf ''a.pdf'' 512000, sample_pdf ''b.pdf'' 512000,
            sample_pdf ''c.pdf'' 512000])))) =
     [sample_pdf ''a.pdf'' 512000, sample_pdf ''b.pdf'' 512000, sample_pdf ''c.pdf'' 512000]"
proof -
  let ?st = "\<lparr>files = [], errors = []\<rparr>"
  let ?bad = "[sample_pdf ''big.pdf'' 600000, sample_pdf ''ok.pdf'' 1000]"
  let ?notes = "[\<lparr>file_name = ''notes.txt'', file_size = 10, file_type = ''text/plain''\<rparr>,
               sample_pdf ''ok.pdf'' 1000]"
  let ?good = "[sample_pdf ''a.pdf'' 512000, sample_pdf ''b.pdf'' 512000,
                sample_pdf ''c.pdf'' 512000]"
  let ?r = "processFiles resume_options (sample_env ''a'') ?st (Some ?bad)"
  let ?t = "processFiles resume_options (sample_env ''a'') ?st (Some ?notes)"
  let ?g = "processFiles resume_options (sample_env ''a'') ?st (Some ?good)"
  have r: "?r = (fst ?r, snd ?r)" and t: "?t = (fst ?t, snd ?t)" and g: "?g = (fst ?g, snd ?g)"
    by simp_all
  have "\<not> (\<forall>f \<in> set ?bad. file_size f \<le> maxSize resume_options \<and>
              (accept resume_options = ''*'' \<or>
               list_ex (type_matches f)
                 (map trim (split_on CHR '','' (accept resume_options)))))"
    by (simp add: resume_options_def sample_pdf_def)
  with processFiles_all_or_nothing[OF r] have "errors (fst ?r) \<noteq> []" by blast
  with processFiles_all_or_nothing[OF r]
  have bad: "files (fst ?r) = files ?st \<and> snd ?r = None" by blast
  have "\<not> (\<forall>f \<in> set ?notes. file_size f \<le> maxSize resume_options \<and>
              (accept resume_options = ''*'' \<or>
               list_ex (type_matches f)
                 (map trim (split_on CHR '','' (accept resume_options)))))"
    by (simp add: resume_options_def sample_pdf_def type_matches_def startsWith_def
        endsWith_def trim_def is_space_def)
  with processFiles_all_or_nothing[OF t] have "errors (fst ?t) \<noteq> []" by blast
  with processFiles_all_or_nothing[OF t]
  have plain: "snd ?t = None" by blast
  have "(\<forall>f \<in> set ?good. file_size f \<le> maxSize resume_options \<and>
              (accept resume_options = ''*'' \<or>
               list_ex (type_matches f)
                 (map trim (split_on CHR '','' (accept resume_options))))) \<and>
        (?good = [] \<or> length (files ?st) + length ?good \<le> maxFiles resume_options)"
    by (simp add: resume_options_def sample_pdf_def type_matches_def startsWith_def
        endsWith_def trim_def is_space_def)
  moreover from processFiles_all_or_nothing[OF g] obtain newFiles where
    "errors (fst ?g) = [] \<longleftrightarrow>
       (\<forall>f \<in> set ?good. file_size f \<le> maxSize resume_options \<and>
              (accept resume_options = ''*'' \<or>
               list_ex (type_matches f)
                 (map trim (split_on CHR '','' (accept resume_options))))) \<and>
        (?good = [] \<or> length (files ?st) + length ?good \<le> maxFiles resume_options)"
    "errors (fst ?g) = [] \<longrightarrow>
       map item_file newFiles = ?good \<and>
       files (fst ?g) = (if multiple resume_options then files ?st @ newFiles else newFiles) \<and>
       snd ?g = Some (files (fst ?g))"
    by (elim exE conjE)
  ultimately have "errors (fst ?g) = []" "map item_file newFiles = ?good"
    "files (fst ?g) = (if multiple resume_options then files ?st @ newFiles else newFiles)"
    by blast+
  then have good: "errors (fst ?g) = [] \<and> map item_file (files (fst ?g)) = ?good"
    by (simp add: resume_options_def)
  from bad plain good show ?thesis by simp
qed

section \<open>Properties of the response parser\<close>

subsection \<open>The matcher\<close>

text \<open>The two star equations unfold without end under the simplifier; they are applied by hand.\<close>

declare run.simps(5,6) [simp del]

lemma run_Star_iff:
  "st' \<in> set (run (Star a) st) \<longleftrightarrow>
   st' = st \<or> (\<exists>m \<in> set (run a st). length (fst m) < length (fst st) \<and>
                  st' \<in> set (run (Star a) m))"
  by (subst run.simps(5)) auto

lemma run_Lazy_iff:
  "st' \<in> set (run (Lazy a) st) \<longleftrightarrow>
   st' = st \<or> (\<exists>m \<in> set (run a st). length (fst m) < length (fst st) \<and>
                  st' \<in> set (run (Lazy a) m))"
  by (subst run.simps(6)) auto

lemma run_Seq_iff:
  "st' \<in> set (run (Seq a b) st) \<longleftrightarrow> (\<exists>m \<in> set (run a st). st' \<in> set (run b m))"
  by auto

lemma run_Group_iff:
  "st' \<in> set (run (Group a) st) \<longleftrightarrow>
   (\<exists>m \<in> set (run a st).
      st' = (fst m, Some (take (length (fst st) - length (fst m)) (fst st))))"
  by auto

text \<open>The matcher only moves forward: what is left to read is a suffix of what was.\<close>

lemma run_suffix: "st' \<in> set (run r st) \<Longrightarrow> suffix (fst st') (fst st)"
proof (induction r st arbitrary: st' rule: run.induct)
  case (1 p st)
  then show ?case
    by (cases st; cases "fst st") (auto split: if_splits simp: suffix_def)
next
  case (2 st)
  then show ?case by simp
next
  case (3 a b st)
  from "3.prems" obtain mid where mid: "mid \<in> set (run a st)" and st': "st' \<in> set (run b mid)"
    by auto
  from "3.IH"(1)[OF mid] "3.IH"(2)[OF mid st'] show ?case
    by (rule suffix_order.trans[rotated])
next
  case (4 a b st)
  from "4.prems" have "st' \<in> set (run a st) \<or> st' \<in> set (run b st)" by simp
  then show ?case using "4.IH" by blast
next
  case (5 a st)
  from "5.prems" consider "st' = st"
    | mid where "mid \<in> set (run a st)" "length (fst mid) < length (fst st)"
        "st' \<in> set (run (Star a) mid)"
    unfolding run_Star_iff[of st' a st] by blast
  then show ?case
  proof cases
    case 1
    then show ?thesis by simp
  next
    case 2
    from "5.IH"(1)[OF 2(1)] "5.IH"(2)[OF 2(1) 2(2) 2(3)] show ?thesis
      by (rule suffix_order.trans[rotated])
  qed
next
  case (6 a st)
  from "6.prems" consider "st' = st"
    | mid where "mid \<in> set (run a st)" "length (fst mid) < length (fst st)"
        "st' \<in> set (run (Lazy a) mid)"
    unfolding run_Lazy_iff[of st' a st] by blast
  then show ?case
  proof cases
    case 1
    then show ?thesis by simp
  next
    case 2
    from "6.IH"(1)[OF 2(1)] "6.IH"(2)[OF 2(1) 2(2) 2(3)] show ?thesis
      by (rule suffix_order.trans[rotated])
  qed
next
  case (7 a st)
  from "7.prems" obtain m where "m \<in> set (run a st)" "fst st' = fst m" by auto
  then show ?case using "7.IH" by simp
next
  case (8 a st)
  then show ?case by (auto split: list.splits)
next
  case (9 a st)
  then show ?case by (auto split: list.splits)
qed

lemma run_lit_keeps_group: "st' \<in> set (run (lit w) st) \<Longrightarrow> snd st' = snd st"
  by (induction w arbitrary: st) (auto split: list.splits if_splits)

lemma run_lit_iff:
  "st' \<in> set (run (lit w) st) \<longleftrightarrow> fst st = w @ fst st' \<and> snd st' = snd st"
proof (induction w arbitrary: st)
  case Nil
  then show ?case by (auto simp: prod_eq_iff)
next
  case (Cons c w)
  show ?case
  proof (cases "fst st")
    case Nil
    then show ?thesis by simp
  next
    case (Cons d ds)
    then show ?thesis using Cons.IH[of "(ds, snd st)"] by auto
  qed
qed

lemma run_Star_Chars_sound:
  "st' \<in> set (run (Star (Chars p)) (cs, g)) \<Longrightarrow>
   \<exists>w. cs = w @ fst st' \<and> (\<forall>x \<in> set w. p x) \<and> snd st' = g"
proof (induction cs)
  case Nil
  then show ?case unfolding run_Star_iff[of st' "Chars p" "([], g)"] by auto
next
  case (Cons c cs)
  from Cons.prems consider "st' = (c # cs, g)"
    | "p c" "st' \<in> set (run (Star (Chars p)) (cs, g))"
    unfolding run_Star_iff[of st' "Chars p" "(c # cs, g)"] by (auto split: if_splits)
  then show ?case
  proof cases
    case 1
    then show ?thesis by simp
  next
    case 2
    from Cons.IH[OF 2(2)] obtain w where "cs = w @ fst st'" "\<forall>x \<in> set w. p x" "snd st' = g"
      by blast
    then have "c # cs = (c # w) @ fst st' \<and> (\<forall>x \<in> set (c # w). p x) \<and> snd st' = g"
      using 2(1) by simp
    then show ?thesis by blast
  qed
qed

lemma run_Star_Chars_complete:
  "\<forall>x \<in> set w. p x \<Longrightarrow> (rest, g) \<in> set (run (Star (Chars p)) (w @ rest, g))"
proof (induction w)
  case Nil
  then show ?case unfolding run_Star_iff[of _ "Chars p" "([] @ rest, g)"] by simp
next
  case (Cons c w)
  then have "(rest, g) \<in> set (run (Star (Chars p)) (w @ rest, g))" and "p c" by simp_all
  then show ?case unfolding run_Star_iff[of _ "Chars p" "((c # w) @ rest, g)"] by auto
qed

lemma group_starts_with:
  assumes "st' \<in> set (run (Group (Seq (Chars p) r)) st)"
  shows "\<exists>c w. snd st' = Some (c # w) \<and> p c"
proof -
  from assms obtain m where m: "m \<in> set (run (Seq (Chars p) r) st)"
    and st': "st' = (fst m, Some (take (length (fst st) - length (fst m)) (fst st)))"
    unfolding run_Group_iff by blast
  from m obtain m0 where m0: "m0 \<in> set (run (Chars p) st)" and mr0: "m \<in> set (run r m0)"
    unfolding run_Seq_iff by blast
  from m0 obtain c cs where cs: "fst st = c # cs" and pc: "p c" and "m0 = (cs, snd st)"
    by (cases "fst st") (auto split: if_splits)
  with mr0 have mr: "m \<in> set (run r (cs, snd st))" by simp
  from run_suffix[OF mr] have "length (fst m) \<le> length cs"
    by (auto simp: suffix_def)
  then have "take (length (fst st) - length (fst m)) (fst st) =
             c # take (length cs - length (fst m)) cs"
    by (simp add: cs Suc_diff_le)
  with st' pc show ?thesis by simp
qed

lemma str_match_Some:
  "str_match r s = Some found \<Longrightarrow> \<exists>t st. st \<in> set (run r (t, None)) \<and> snd found = snd st"
proof (induction s)
  case Nil
  then obtain st rest where "run r ([], None) = st # rest" and "snd found = snd st"
    by (auto split: list.splits)
  then have "st \<in> set (run r ([], None))" by simp
  with \<open>snd found = snd st\<close> show ?case by blast
next
  case (Cons c cs)
  show ?case
  proof (cases "run r (c # cs, None)")
    case Nil
    with Cons show ?thesis by simp
  next
    case (Cons st rest)
    with Cons.prems have "snd found = snd st" by auto
    moreover from Cons have "st \<in> set (run r (c # cs, None))" by simp
    ultimately show ?thesis by blast
  qed
qed

lemma str_match_None_iff:
  "str_match r s = None \<longleftrightarrow> (\<forall>t. suffix t s \<longrightarrow> run r (t, None) = [])"
proof (induction s)
  case Nil
  then show ?case by (auto split: list.splits)
next
  case (Cons c cs)
  show ?case
  proof (cases "run r (c # cs, None)")
    case Nil
    then show ?thesis using Cons by (auto simp: suffix_Cons)
  next
    case (Cons st rest)
    then have "str_match r (c # cs) \<noteq> None" by simp
    moreover have "suffix (c # cs) (c # cs)" by simp
    ultimately show ?thesis using Cons by (metis list.distinct(1))
  qed
qed

text \<open>A group, once set, stays set, and an expression with a group on every path sets it.\<close>

lemma run_keeps_group:
  "st' \<in> set (run r st) \<Longrightarrow> snd st \<noteq> None \<Longrightarrow> snd st' \<noteq> None"
proof (induction r st arbitrary: st' rule: run.induct)
  case (1 p st)
  then show ?case by (cases "fst st") (auto split: if_splits)
next
  case (2 st)
  then show ?case by simp
next
  case (3 a b st)
  then show ?case unfolding run_Seq_iff by blast
next
  case (4 a b st)
  from "4.prems" have "st' \<in> set (run a st) \<or> st' \<in> set (run b st)" by simp
  then show ?case using 4 by blast
next
  case (5 a st)
  then show ?case unfolding run_Star_iff[of st' a st] by blast
next
  case (6 a st)
  then show ?case unfolding run_Lazy_iff[of st' a st] by blast
next
  case (7 a st)
  then show ?case by auto
next
  case (8 a st)
  then show ?case by (cases "run a st") auto
next
  case (9 a st)
  then show ?case by (cases "run a st") auto
qed

lemma run_sets_group:
  "sets_group r \<Longrightarrow> st' \<in> set (run r st) \<Longrightarrow> snd st' \<noteq> None"
proof (induction r arbitrary: st st')
  case (Seq a b)
  from Seq.prems(2) obtain m where m: "m \<in> set (run a st)" and st': "st' \<in> set (run b m)"
    unfolding run_Seq_iff by blast
  show ?case
  proof (cases "sets_group a")
    case True
    from Seq.IH(1)[OF True m] run_keeps_group[OF st'] show ?thesis by blast
  next
    case False
    with Seq.prems(1) have "sets_group b" by simp
    from Seq.IH(2)[OF this st'] show ?thesis .
  qed
next
  case (Alt a b)
  from Alt.prems(1) have ab: "sets_group a" "sets_group b" by simp_all
  from Alt.prems(2) have "st' \<in> set (run a st) \<or> st' \<in> set (run b st)" by simp
  then show ?case using Alt.IH(1)[OF ab(1)] Alt.IH(2)[OF ab(2)] by blast
next
  case (Group a)
  then show ?case by auto
qed simp_all

lemma sets_group_lit [simp]: "\<not> sets_group (lit w)"
  by (induction w) auto

lemma group_always_set:
  assumes "r \<in> {re_name, re_email, re_phone, re_cgpa, re_percentage, re_education, re_experience,
                re_skills, re_education_indented, re_experience_indented, re_fallback_name,
                re_fallback_email, re_fallback_skills}"
    and "str_match r s = Some found"
  shows "snd found \<noteq> None"
proof -
  from assms(1) have "sets_group r"
    by (auto simp: re_name_def re_email_def re_phone_def re_cgpa_def re_percentage_def
        re_education_def re_experience_def re_skills_def re_education_indented_def
        re_experience_indented_def re_fallback_name_def re_fallback_email_def
        re_fallback_skills_def)
  moreover from str_match_Some[OF assms(2)] obtain t st where
    "st \<in> set (run r (t, None))" "snd found = snd st" by blast
  ultimately show ?thesis using run_sets_group by metis
qed

subsection \<open>Names\<close>

lemma is_upper_not_space: "is_upper c \<Longrightarrow> \<not> is_space c"
  by (auto simp: is_upper_def is_space_def Let_def)

lemma trim_nonempty: "\<not> is_space c \<Longrightarrow> trim (c # w) \<noteq> []"
  by (auto simp: trim_def dropWhile_eq_Nil_conv)

lemma trim_empty_all_space:
  assumes "trim s = []"
  shows "\<forall>c \<in> set s. is_space c"
proof -
  from assms have all: "\<forall>x \<in> set (dropWhile is_space s). is_space x"
    by (simp add: trim_def dropWhile_eq_Nil_conv)
  have "dropWhile is_space s = []"
  proof (rule ccontr)
    assume ne: "dropWhile is_space s \<noteq> []"
    then have "\<not> is_space (hd (dropWhile is_space s))" by (rule hd_dropWhile)
    moreover from ne have "hd (dropWhile is_space s) \<in> set (dropWhile is_space s)" by simp
    ultimately show False using all by blast
  qed
  then show ?thesis by (simp add: dropWhile_eq_Nil_conv)
qed

lemma star_not_space: "\<not> is_space CHR ''*''"
  by (simp add: is_space_def)

lemma re_name_group:
  assumes "str_match re_name s = Some found"
  shows "\<exists>c w. snd found = Some (c # w) \<and> is_upper c"
proof -
  from str_match_Some[OF assms] obtain t st where
    st: "st \<in> set (run re_name (t, None))" and eq: "snd found = snd st"
    by blast
  from st obtain m1 m2 where "m1 \<in> set (run (lit ''**'') (t, None))"
    and m2: "m2 \<in> set (run (Group (Seq (Chars is_upper) (one_or_more upper_or_space))) m1)"
    and last: "st \<in> set (run (lit ''**'') m2)"
    unfolding re_name_def run_Seq_iff by blast
  from run_lit_keeps_group[OF last] group_starts_with[OF m2] eq show ?thesis
    by auto
qed

lemma re_fallback_name_group:
  assumes "str_match re_fallback_name s = Some found"
  shows "\<exists>c w. snd found = Some (c # w) \<and> is_upper c"
proof -
  from str_match_Some[OF assms] obtain t st where
    st: "st \<in> set (run re_fallback_name (t, None))" and eq: "snd found = snd st"
    by blast
  from group_starts_with[OF st[unfolded re_fallback_name_def]] eq show ?thesis by simp
qed

lemma from_group_re_name:
  "(from_group re_name s trim [] \<noteq> []) = (str_match re_name s \<noteq> None)"
proof (cases "str_match re_name s")
  case None
  then show ?thesis by (simp add: from_group_def group1_def)
next
  case (Some found)
  from re_name_group[OF Some] obtain c w where "snd found = Some (c # w)" "is_upper c" by blast
  with Some show ?thesis
    by (simp add: from_group_def group1_def trim_nonempty is_upper_not_space)
qed

text \<open>
  The header expression matches exactly the texts that hold, between two pairs of
  asterisks, a capital letter followed by at least one capital letter or white space.
\<close>

lemma run_re_name_iff:
  "run re_name (t, None) \<noteq> [] \<longleftrightarrow>
   (\<exists>c w post. t = ''**'' @ c # w @ ''**'' @ post \<and> is_upper c \<and> w \<noteq> [] \<and>
      (\<forall>x \<in> set w. is_upper x \<or> is_space x))"
proof
  assume "run re_name (t, None) \<noteq> []"
  then obtain st where "st \<in> set (run re_name (t, None))"
    by (cases "run re_name (t, None)") auto
  then obtain m1 m2 where m1: "m1 \<in> set (run (lit ''**'') (t, None))"
    and m2: "m2 \<in> set (run (Group (Seq (Chars is_upper) (one_or_more upper_or_space))) m1)"
    and last: "st \<in> set (run (lit ''**'') m2)"
    unfolding re_name_def run_Seq_iff by blast
  from m1 have t: "t = ''**'' @ fst m1" unfolding run_lit_iff by simp
  from m2 obtain m where m: "m \<in> set (run (Seq (Chars is_upper) (one_or_more upper_or_space)) m1)"
    and m2_eq: "m2 = (fst m, Some (take (length (fst m1) - length (fst m)) (fst m1)))"
    unfolding run_Group_iff by blast
  from m2_eq have "fst m2 = fst m" by simp
  from m obtain a where a: "a \<in> set (run (Chars is_upper) m1)"
    and am: "m \<in> set (run (one_or_more upper_or_space) a)"
    unfolding run_Seq_iff by blast
  from a obtain c where c: "fst m1 = c # fst a" "is_upper c"
    by (cases "fst m1") (auto split: if_splits)
  from am obtain b where b: "b \<in> set (run upper_or_space a)"
    and bm: "m \<in> set (run (Star upper_or_space) b)"
    unfolding one_or_more_def run_Seq_iff by blast
  from b obtain x where x: "fst a = x # fst b" "is_upper x \<or> is_space x"
    by (cases "fst a") (auto simp: upper_or_space_def split: if_splits)
  from bm obtain w where w: "fst b = w @ fst m" "\<forall>y \<in> set w. is_upper y \<or> is_space y"
    using run_Star_Chars_sound[of m "\<lambda>c. is_upper c \<or> is_space c" "fst b" "snd b"]
    by (auto simp: upper_or_space_def)
  from last have "fst m2 = ''**'' @ fst st" unfolding run_lit_iff by simp
  with t c x w \<open>fst m2 = fst m\<close>
  have "t = ''**'' @ c # (x # w) @ ''**'' @ fst st \<and> is_upper c \<and> x # w \<noteq> [] \<and>
        (\<forall>y \<in> set (x # w). is_upper y \<or> is_space y)"
    by simp
  then show "\<exists>c w post. t = ''**'' @ c # w @ ''**'' @ post \<and> is_upper c \<and> w \<noteq> [] \<and>
      (\<forall>x \<in> set w. is_upper x \<or> is_space x)"
    by blast
next
  assume "\<exists>c w post. t = ''**'' @ c # w @ ''**'' @ post \<and> is_upper c \<and> w \<noteq> [] \<and>
      (\<forall>x \<in> set w. is_upper x \<or> is_space x)"
  then obtain c w post where t: "t = ''**'' @ c # w @ ''**'' @ post" and c: "is_upper c"
    and w: "w \<noteq> []" "\<forall>x \<in> set w. is_upper x \<or> is_space x"
    by blast
  from w obtain x w' where xw: "w = x # w'" by (cases w) auto
  let ?g = "Some (c # w)"
  have s1: "(c # w @ ''**'' @ post, None) \<in> set (run (lit ''**'') (t, None))"
    unfolding run_lit_iff by (simp add: t)
  have s2: "(w @ ''**'' @ post, None) \<in> set (run (Chars is_upper) (c # w @ ''**'' @ post, None))"
    using c by simp
  have s3: "(w' @ ''**'' @ post, None) \<in> set (run upper_or_space (w @ ''**'' @ post, None))"
    using w(2) by (simp add: xw upper_or_space_def)
  have s4: "(''**'' @ post, None) \<in> set (run (Star upper_or_space) (w' @ ''**'' @ post, None))"
    unfolding upper_or_space_def
    using run_Star_Chars_complete[of w' "\<lambda>c. is_upper c \<or> is_space c" "''**'' @ post" None] w(2)
    by (simp add: xw)
  have s5: "(''**'' @ post, None) \<in>
        set (run (Seq (Chars is_upper) (one_or_more upper_or_space)) (c # w @ ''**'' @ post, None))"
    unfolding one_or_more_def run_Seq_iff using s2 s3 s4 by blast
  have s6: "(''**'' @ post, ?g) \<in>
        set (run (Group (Seq (Chars is_upper) (one_or_more upper_or_space)))
               (c # w @ ''**'' @ post, None))"
    unfolding run_Group_iff using s5 by force
  have s7: "(post, ?g) \<in> set (run (lit ''**'') (''**'' @ post, ?g))"
    unfolding run_lit_iff by simp
  have "(post, ?g) \<in> set (run re_name (t, None))"
    unfolding re_name_def run_Seq_iff using s1 s6 s7 by blast
  then show "run re_name (t, None) \<noteq> []" by auto
qed

lemma str_match_re_name_iff:
  "str_match re_name s \<noteq> None \<longleftrightarrow>
   (\<exists>pre c w post. s = pre @ ''**'' @ c # w @ ''**'' @ post \<and> is_upper c \<and> w \<noteq> [] \<and>
      (\<forall>x \<in> set w. is_upper x \<or> is_space x))"
proof
  assume "str_match re_name s \<noteq> None"
  then obtain t where "suffix t s" and "run re_name (t, None) \<noteq> []"
    unfolding str_match_None_iff by blast
  then obtain pre c w post where "s = pre @ t"
    and "t = ''**'' @ c # w @ ''**'' @ post \<and> is_upper c \<and> w \<noteq> [] \<and>
      (\<forall>x \<in> set w. is_upper x \<or> is_space x)"
    unfolding run_re_name_iff suffix_def by blast
  then show "\<exists>pre c w post. s = pre @ ''**'' @ c # w @ ''**'' @ post \<and> is_upper c \<and> w \<noteq> [] \<and>
      (\<forall>x \<in> set w. is_upper x \<or> is_space x)"
    by blast
next
  assume "\<exists>pre c w post. s = pre @ ''**'' @ c # w @ ''**'' @ post \<and> is_upper c \<and> w \<noteq> [] \<and>
      (\<forall>x \<in> set w. is_upper x \<or> is_space x)"
  then obtain pre c w post where s: "s = pre @ ''**'' @ c # w @ ''**'' @ post"
    and ok: "is_upper c \<and> w \<noteq> [] \<and> (\<forall>x \<in> set w. is_upper x \<or> is_space x)"
    by blast
  have "run re_name (''**'' @ c # w @ ''**'' @ post, None) \<noteq> []"
    unfolding run_re_name_iff using ok by blast
  moreover have "suffix (''**'' @ c # w @ ''**'' @ post) s"
    unfolding suffix_def s by blast
  ultimately show "str_match re_name s \<noteq> None"
    unfolding str_match_None_iff by blast
qed

lemma name_parseFallbackFormat: "name (parseFallbackFormat s) \<noteq> []"
proof (cases "str_match re_fallback_name s")
  case None
  then show ?thesis by (simp add: parseFallbackFormat_def from_group_def group1_def)
next
  case (Some found)
  from re_fallback_name_group[OF Some] obtain c w where "snd found = Some (c # w)" "is_upper c"
    by blast
  with Some show ?thesis
    by (simp add: parseFallbackFormat_def from_group_def group1_def trim_nonempty is_upper_not_space)
qed

lemma name_parseIndentedFormat:
  "(name (parseIndentedFormat s) \<noteq> []) = (str_match re_name s \<noteq> None)"
  by (simp add: parseIndentedFormat_def from_group_re_name)

lemma no_star_no_name: "CHR ''*'' \<notin> set s \<Longrightarrow> str_match re_name s = None"
  by (induction s) (auto simp: re_name_def split: list.splits)

lemma blank_section_no_name: "trim s = [] \<Longrightarrow> name (parseCandidateSection s) = []"
proof -
  assume "trim s = []"
  with trim_empty_all_space star_not_space have "CHR ''*'' \<notin> set s" by blast
  from no_star_no_name[OF this] show ?thesis
    by (simp add: parseCandidateSection_def from_group_def group1_def)
qed

subsection \<open>Sections\<close>

text \<open>Splitting at a lookahead removes nothing: the sections, joined, are the text.\<close>

lemma run_Ahead: "run (Ahead a) st = [] \<or> (\<exists>g. run (Ahead a) st = [(fst st, g)])"
  by (auto split: list.splits)

lemma concat_split_loop_Ahead: "concat (split_loop (Ahead a) piece 0 rest) = piece @ rest"
proof (induction rest arbitrary: piece)
  case Nil
  then show ?case by simp
next
  case (Cons c cs)
  from run_Ahead[of a "(c # cs, None)"] show ?case
  proof
    assume "run (Ahead a) (c # cs, None) = []"
    then show ?thesis using Cons[of "piece @ [c]"] by simp
  next
    assume "\<exists>g. run (Ahead a) (c # cs, None) = [(fst (c # cs, None), g)]"
    then obtain g where "run (Ahead a) (c # cs, None) = [(c # cs, g)]" by auto
    then show ?thesis using Cons[of "piece @ [c]"] Cons[of "[c]"]
      by (simp del: run.simps)
  qed
qed

lemma concat_str_split_re_header: "concat (str_split re_header s) = s"
  by (cases "s = []")
     (auto simp: str_split_def re_header_def concat_split_loop_Ahead simp del: run.simps split: list.splits)

lemma sections_records:
  "concat (map (\<lambda>sect. if trim sect \<noteq> [] then push_named (parseCandidateSection sect) else []) sections) =
   map parseCandidateSection (filter (\<lambda>sect. name (parseCandidateSection sect) \<noteq> []) sections)"
  by (induction sections) (auto simp: push_named_def blank_section_no_name)

text \<open>
  The header lookahead succeeds exactly on the texts that start with a header, and the
  split cuts exactly at the positions, other than the first, where it succeeds.
\<close>

lemma nonempty_iff_member: "xs \<noteq> [] \<longleftrightarrow> (\<exists>x. x \<in> set xs)"
  by (cases xs) auto

lemma run_lit_nonempty: "run (lit w) st \<noteq> [] \<longleftrightarrow> (\<exists>rest. fst st = w @ rest)"
  unfolding nonempty_iff_member run_lit_iff by (metis fst_conv snd_conv)

lemma run_Ahead_nonempty: "run (Ahead a) st \<noteq> [] \<longleftrightarrow> run a st \<noteq> []"
  by (cases "run a st") auto

lemma run_re_header_iff_re_name:
  "run re_header (t, None) \<noteq> [] \<longleftrightarrow> run re_name (t, None) \<noteq> []"
proof -
  let ?L = "lit ''**''" and ?U = "Chars is_upper" and ?O = "one_or_more upper_or_space"
  have "run (Seq ?L (Seq ?U (Seq ?O ?L))) (t, None) \<noteq> [] \<longleftrightarrow>
        (\<exists>m1 \<in> set (run ?L (t, None)). \<exists>a \<in> set (run ?U m1). \<exists>m \<in> set (run ?O a).
           \<exists>rest. fst m = ''**'' @ rest)"
    unfolding nonempty_iff_member[of "run (Seq _ _) _"] run_Seq_iff
    using run_lit_nonempty[of "''**''"] unfolding nonempty_iff_member by blast
  moreover have "run (Seq ?L (Seq (Group (Seq ?U ?O)) ?L)) (t, None) \<noteq> [] \<longleftrightarrow>
        (\<exists>m1 \<in> set (run ?L (t, None)). \<exists>a \<in> set (run ?U m1). \<exists>m \<in> set (run ?O a).
           \<exists>rest. fst m = ''**'' @ rest)"
  proof
    assume "run (Seq ?L (Seq (Group (Seq ?U ?O)) ?L)) (t, None) \<noteq> []"
    then obtain st m1 m2 where m1: "m1 \<in> set (run ?L (t, None))"
      and m2: "m2 \<in> set (run (Group (Seq ?U ?O)) m1)" and st: "st \<in> set (run ?L m2)"
      unfolding nonempty_iff_member run_Seq_iff by blast
    from m2 obtain m where m: "m \<in> set (run (Seq ?U ?O) m1)" and "fst m2 = fst m"
      unfolding run_Group_iff by force
    from m obtain a where "a \<in> set (run ?U m1)" "m \<in> set (run ?O a)"
      unfolding run_Seq_iff by blast
    moreover from st \<open>fst m2 = fst m\<close> have "\<exists>rest. fst m = ''**'' @ rest"
      unfolding run_lit_iff by auto
    ultimately show "\<exists>m1 \<in> set (run ?L (t, None)). \<exists>a \<in> set (run ?U m1). \<exists>m \<in> set (run ?O a).
           \<exists>rest. fst m = ''**'' @ rest"
      using m1 by blast
  next
    assume "\<exists>m1 \<in> set (run ?L (t, None)). \<exists>a \<in> set (run ?U m1). \<exists>m \<in> set (run ?O a).
           \<exists>rest. fst m = ''**'' @ rest"
    then obtain m1 a m rest where m1: "m1 \<in> set (run ?L (t, None))"
      and a: "a \<in> set (run ?U m1)" and m: "m \<in> set (run ?O a)" and rest: "fst m = ''**'' @ rest"
      by blast
    let ?m2 = "(fst m, Some (take (length (fst m1) - length (fst m)) (fst m1)))"
    from a m have "m \<in> set (run (Seq ?U ?O) m1)" unfolding run_Seq_iff by blast
    then have "?m2 \<in> set (run (Group (Seq ?U ?O)) m1)" unfolding run_Group_iff by blast
    moreover have "(rest, snd ?m2) \<in> set (run ?L ?m2)"
      unfolding run_lit_iff using rest by simp
    ultimately have "(rest, snd ?m2) \<in> set (run (Seq ?L (Seq (Group (Seq ?U ?O)) ?L)) (t, None))"
      unfolding run_Seq_iff using m1 by blast
    then show "run (Seq ?L (Seq (Group (Seq ?U ?O)) ?L)) (t, None) \<noteq> []"
      unfolding nonempty_iff_member by blast
  qed
  ultimately show ?thesis
    unfolding re_header_def re_name_def run_Ahead_nonempty by simp
qed

lemma run_re_header_iff:
  "run re_header (t, None) \<noteq> [] \<longleftrightarrow> starts_with_header t"
  unfolding run_re_header_iff_re_name run_re_name_iff ..

lemma split_loop_Ahead_Cons:
  "split_loop (Ahead a) piece 0 (c # cs) =
     (if run (Ahead a) (c # cs, None) \<noteq> [] \<and> piece \<noteq> []
      then piece # split_loop (Ahead a) [c] 0 cs
      else split_loop (Ahead a) (piece @ [c]) 0 cs)"
proof -
  from run_Ahead[of a "(c # cs, None)"] show ?thesis
  proof
    assume "run (Ahead a) (c # cs, None) = []"
    then show ?thesis by simp
  next
    assume "\<exists>g. run (Ahead a) (c # cs, None) = [(fst (c # cs, None), g)]"
    then obtain g where "run (Ahead a) (c # cs, None) = [(c # cs, g)]" by auto
    then show ?thesis by (simp del: run.simps)
  qed
qed

lemma cut_offsets_single: "cut_offsets [x] = {}"
  by auto

lemma cut_offsets_Cons:
  "ys \<noteq> [] \<Longrightarrow> cut_offsets (x # ys) = insert (length x) ((\<lambda>m. length x + m) ` cut_offsets ys)"
proof (intro set_eqI iffI)
  fix n assume ys: "ys \<noteq> []" and "n \<in> cut_offsets (x # ys)"
  then obtain k where k: "0 < k" "k < Suc (length ys)" and n: "n = length (concat (take k (x # ys)))"
    by auto
  show "n \<in> insert (length x) ((\<lambda>m. length x + m) ` cut_offsets ys)"
  proof (cases k)
    case 0
    with k show ?thesis by simp
  next
    case (Suc k')
    show ?thesis
    proof (cases "k' = 0")
      case True
      with Suc n show ?thesis by simp
    next
      case False
      with Suc k have "k' \<in> {0<..<length ys}" by simp
      moreover from Suc n have "n = length x + length (concat (take k' ys))" by simp
      ultimately show ?thesis by blast
    qed
  qed
next
  fix n assume ys: "ys \<noteq> []" and "n \<in> insert (length x) ((\<lambda>m. length x + m) ` cut_offsets ys)"
  then consider "n = length x"
    | k' where "0 < k'" "k' < length ys" "n = length x + length (concat (take k' ys))"
    by auto
  then show "n \<in> cut_offsets (x # ys)"
  proof cases
    case 1
    from ys have "Suc 0 \<in> {0<..<length (x # ys)}" by (cases ys) auto
    moreover from 1 have "n = length (concat (take (Suc 0) (x # ys)))" by simp
    ultimately show ?thesis by blast
  next
    case 2
    then have "Suc k' \<in> {0<..<length (x # ys)}" by simp
    moreover from 2 have "n = length (concat (take (Suc k') (x # ys)))" by simp
    ultimately show ?thesis by blast
  qed
qed

lemma split_loop_Ahead_cuts:
  "concat (split_loop (Ahead a) piece 0 rest) = piece @ rest \<and>
   split_loop (Ahead a) piece 0 rest \<noteq> [] \<and>
   length piece \<le> length (hd (split_loop (Ahead a) piece 0 rest)) \<and>
   (hd (split_loop (Ahead a) piece 0 rest) = [] \<longrightarrow> rest = []) \<and>
   (\<forall>x \<in> set (tl (split_loop (Ahead a) piece 0 rest)). x \<noteq> []) \<and>
   (\<forall>n \<in> cut_offsets (split_loop (Ahead a) piece 0 rest). length piece \<le> n \<and> 0 < n) \<and>
   (\<forall>n. length piece \<le> n \<and> 0 < n \<and> n < length piece + length rest \<longrightarrow>
      (n \<in> cut_offsets (split_loop (Ahead a) piece 0 rest) \<longleftrightarrow>
       run (Ahead a) (drop (n - length piece) rest, None) \<noteq> []))"
proof (induction rest arbitrary: piece)
  case Nil
  show ?case by (auto simp del: run.simps)
next
  case (Cons c cs)
  show ?case
  proof (cases "run (Ahead a) (c # cs, None) \<noteq> [] \<and> piece \<noteq> []")
    case True
    let ?ys = "split_loop (Ahead a) [c] 0 cs"
    have xs: "split_loop (Ahead a) piece 0 (c # cs) = piece # ?ys"
      unfolding split_loop_Ahead_Cons using True by (rule if_P)
    note ih = Cons.IH[of "[c]"]
    from ih have ys_ne: "?ys \<noteq> []" and hd_ys: "hd ?ys \<noteq> []" by auto
    from ih have tl_ys: "\<forall>x \<in> set (tl ?ys). x \<noteq> []" by blast
    have all_ys: "\<forall>x \<in> set ?ys. x \<noteq> []"
      using ys_ne hd_ys tl_ys by (cases ?ys) auto
    have offs: "cut_offsets (piece # ?ys) =
                  insert (length piece) ((\<lambda>m. length piece + m) ` cut_offsets ?ys)"
      using ys_ne by (rule cut_offsets_Cons)
    from ih have ys_pos: "\<forall>m \<in> cut_offsets ?ys. 1 \<le> m" by auto
    have iff: "n \<in> cut_offsets (piece # ?ys) \<longleftrightarrow>
               run (Ahead a) (drop (n - length piece) (c # cs), None) \<noteq> []"
      if n: "length piece \<le> n" "0 < n" "n < length piece + length (c # cs)" for n
    proof (cases "n = length piece")
      case True
      with \<open>run (Ahead a) (c # cs, None) \<noteq> [] \<and> piece \<noteq> []\<close> offs show ?thesis by simp
    next
      case False
      define m where "m = n - length piece"
      with n False have m: "n = length piece + m" "1 \<le> m" "m < 1 + length cs"
        by auto
      have "n \<in> cut_offsets (piece # ?ys) \<longleftrightarrow> m \<in> cut_offsets ?ys"
        unfolding offs using m False by auto
      also from ih m have "\<dots> \<longleftrightarrow> run (Ahead a) (drop (m - 1) cs, None) \<noteq> []"
        by simp
      also from m have "drop (m - 1) cs = drop (n - length piece) (c # cs)"
        by (cases m) auto
      finally show ?thesis .
    qed
    from ih have cc: "concat ?ys = c # cs" by simp
    from True have pne: "piece \<noteq> []" by simp
    have low: "\<forall>n \<in> cut_offsets (piece # ?ys). length piece \<le> n \<and> 0 < n"
    proof
      fix n assume "n \<in> cut_offsets (piece # ?ys)"
      then have "n \<in> insert (length piece) ((\<lambda>m. length piece + m) ` cut_offsets ?ys)"
        unfolding offs .
      then have "length piece \<le> n" by (elim insertE imageE) simp_all
      with pne show "length piece \<le> n \<and> 0 < n" by (cases piece) auto
    qed
    show ?thesis
      unfolding xs
    proof (intro conjI)
      show "concat (piece # ?ys) = piece @ c # cs" using cc by simp
      show "piece # ?ys \<noteq> []" by simp
      show "length piece \<le> length (hd (piece # ?ys))" by simp
      show "hd (piece # ?ys) = [] \<longrightarrow> c # cs = []" using pne by simp
      show "\<forall>x \<in> set (tl (piece # ?ys)). x \<noteq> []" using all_ys by simp
      show "\<forall>n \<in> cut_offsets (piece # ?ys). length piece \<le> n \<and> 0 < n" by (rule low)
      show "\<forall>n. length piece \<le> n \<and> 0 < n \<and> n < length piece + length (c # cs) \<longrightarrow>
              (n \<in> cut_offsets (piece # ?ys) \<longleftrightarrow>
               run (Ahead a) (drop (n - length piece) (c # cs), None) \<noteq> [])"
        using iff by blast
    qed
  next
    case False
    let ?xs = "split_loop (Ahead a) (piece @ [c]) 0 cs"
    have xs: "split_loop (Ahead a) piece 0 (c # cs) = ?xs"
      unfolding split_loop_Ahead_Cons using False by (rule if_not_P)
    note ih = Cons.IH[of "piece @ [c]"]
    from ih have lo: "\<forall>n \<in> cut_offsets ?xs. Suc (length piece) \<le> n" by simp
    have iff: "n \<in> cut_offsets ?xs \<longleftrightarrow>
               run (Ahead a) (drop (n - length piece) (c # cs), None) \<noteq> []"
      if n: "length piece \<le> n" "0 < n" "n < length piece + length (c # cs)" for n
    proof (cases "n = length piece")
      case True
      with n have "piece \<noteq> []" by auto
      with False have "run (Ahead a) (c # cs, None) = []" by simp
      moreover from lo True have "n \<notin> cut_offsets ?xs" by auto
      ultimately show ?thesis using True by simp
    next
      case False
      with n have n': "length (piece @ [c]) \<le> n" "n < length (piece @ [c]) + length cs"
        by auto
      with ih n(2) have "n \<in> cut_offsets ?xs \<longleftrightarrow>
                    run (Ahead a) (drop (n - length (piece @ [c])) cs, None) \<noteq> []"
        by blast
      also have "drop (n - length (piece @ [c])) cs = drop (n - length piece) (c # cs)"
      proof -
        from n' have "n - length piece = Suc (n - length (piece @ [c]))" by simp
        then show ?thesis by simp
      qed
      finally show ?thesis .
    qed
    from ih have cc: "concat ?xs = piece @ c # cs" and ne: "?xs \<noteq> []"
      and hd_len: "Suc (length piece) \<le> length (hd ?xs)"
      and tl_ne: "\<forall>x \<in> set (tl ?xs). x \<noteq> []"
      by simp_all
    show ?thesis
      unfolding xs
    proof (intro conjI)
      show "concat ?xs = piece @ c # cs" by (rule cc)
      show "?xs \<noteq> []" by (rule ne)
      show "length piece \<le> length (hd ?xs)" using hd_len by simp
      show "hd ?xs = [] \<longrightarrow> c # cs = []" using hd_len by auto
      show "\<forall>x \<in> set (tl ?xs). x \<noteq> []" by (rule tl_ne)
      show "\<forall>n \<in> cut_offsets ?xs. length piece \<le> n \<and> 0 < n"
      proof
        fix n assume "n \<in> cut_offsets ?xs"
        with lo have "Suc (length piece) \<le> n" by (rule bspec)
        then show "length piece \<le> n \<and> 0 < n" by simp
      qed
      show "\<forall>n. length piece \<le> n \<and> 0 < n \<and> n < length piece + length (c # cs) \<longrightarrow>
              (n \<in> cut_offsets ?xs \<longleftrightarrow>
               run (Ahead a) (drop (n - length piece) (c # cs), None) \<noteq> [])"
        using iff by blast
    qed
  qed
qed

lemma str_split_re_header_cuts:
  assumes "s \<noteq> []"
  shows "concat (str_split re_header s) = s \<and> [] \<notin> set (str_split re_header s) \<and>
         (\<forall>n. 0 < n \<and> n < length s \<longrightarrow>
            (n \<in> cut_offsets (str_split re_header s) \<longleftrightarrow> starts_with_header (drop n s)))"
proof -
  let ?xs = "split_loop re_header [] 0 s"
  note c = split_loop_Ahead_cuts[of "Seq (lit ''**'')
             (Seq (Chars is_upper) (Seq (one_or_more upper_or_space) (lit ''**'')))" "[]" s,
             folded re_header_def]
  from c assms have "hd ?xs \<noteq> []" by blast
  moreover from c have "?xs \<noteq> []" "\<forall>x \<in> set (tl ?xs). x \<noteq> []" by blast+
  ultimately have ne: "[] \<notin> set ?xs" by (cases ?xs) auto
  from c have "\<forall>n. 0 < n \<and> n < length s \<longrightarrow>
            (n \<in> cut_offsets ?xs \<longleftrightarrow> run re_header (drop n s, None) \<noteq> [])"
    by simp
  then have "\<forall>n. 0 < n \<and> n < length s \<longrightarrow>
            (n \<in> cut_offsets ?xs \<longleftrightarrow> starts_with_header (drop n s))"
    unfolding run_re_header_iff .
  with c ne assms show ?thesis by (simp add: str_split_def)
qed

subsection \<open>The choice of grammar\<close>

text \<open>\<open>includes\<close> in plain terms, and a text with two bold spans.\<close>

lemma startsWith_iff: "startsWith s p \<longleftrightarrow> (\<exists>b. s = p @ b)"
proof
  assume "startsWith s p"
  then have "s = p @ drop (length p) s"
    unfolding startsWith_def by (metis append_take_drop_id)
  then show "\<exists>b. s = p @ b" ..
next
  assume "\<exists>b. s = p @ b"
  then show "startsWith s p" by (auto simp: startsWith_def)
qed

lemma includes_str_iff: "includes_str s sub \<longleftrightarrow> (\<exists>a b. s = a @ sub @ b)"
proof (induction s)
  case Nil
  then show ?case by simp
next
  case (Cons c cs)
  show ?case
  proof
    assume "includes_str (c # cs) sub"
    then consider "startsWith (c # cs) sub" | "includes_str cs sub" by auto
    then show "\<exists>a b. c # cs = a @ sub @ b"
    proof cases
      case 1
      then obtain b where "c # cs = [] @ sub @ b" unfolding startsWith_iff by auto
      then show ?thesis by blast
    next
      case 2
      with Cons obtain a b where "cs = a @ sub @ b" by blast
      then have "c # cs = (c # a) @ sub @ b" by simp
      then show ?thesis by blast
    qed
  next
    assume "\<exists>a b. c # cs = a @ sub @ b"
    then obtain a b where ab: "c # cs = a @ sub @ b" by blast
    show "includes_str (c # cs) sub"
    proof (cases a)
      case Nil
      with ab have "startsWith (c # cs) sub" unfolding startsWith_iff by auto
      then show ?thesis by simp
    next
      case (Cons d ds)
      with ab have "cs = ds @ sub @ b" by simp
      with Cons.IH have "includes_str cs sub" by blast
      then show ?thesis by simp
    qed
  qed
qed

lemma two_bold_spans_include:
  "includes_str (a @ ''**'' @ b @ ''**'' @ c @ ''**'' @ d @ ''**'' @ e) ''**''"
  unfolding includes_str_iff by blast

lemma parseLLMResponse_indented:
  "includes_str response ''- **'' \<Longrightarrow> includes_str response ''**:'' \<Longrightarrow>
   parseLLMResponse response = push_named (parseIndentedFormat response)"
  by (simp add: parseLLMResponse_def)

lemma parseLLMResponse_sections:
  assumes "\<not> (includes_str response ''- **'' \<and> includes_str response ''**:'')"
    and "includes_str response ''**''"
  shows "parseLLMResponse response =
           concat (map (\<lambda>sect. if trim sect \<noteq> [] then push_named (parseCandidateSection sect)
                                else [])
                       (str_split re_header response))"
  unfolding parseLLMResponse_def if_not_P[OF assms(1)] using assms(2) by simp

lemma parseLLMResponse_fallback:
  assumes "\<not> (includes_str response ''- **'' \<and> includes_str response ''**:'')"
    and "\<not> (includes_str response ''**'' \<and> includes_str response ''**'')"
  shows "parseLLMResponse response = push_named (parseFallbackFormat response)"
  unfolding parseLLMResponse_def if_not_P[OF assms(1)] if_not_P[OF assms(2)] by (rule refl)

subsection \<open>The indented form\<close>

text \<open>
  Claim C2 does not hold as stated: a text with both cues of the indented form but no
  bold all-capitals header yields a candidate with an empty name, which is not pushed,
  so the parser returns no record at all.
\<close>

theorem indented_counterexample:
  "includes_str ''- **Name**: x'' ''- **'' \<and> includes_str ''- **Name**: x'' ''**:'' \<and>
   parseLLMResponse ''- **Name**: x'' = []"
proof -
  have cue: "includes_str ''- **Name**: x'' ''- **'' \<and> includes_str ''- **Name**: x'' ''**:''"
    by (simp add: startsWith_def)
  have "str_match re_name ''- **Name**: x'' = None"
    by code_simp
  with cue name_parseIndentedFormat[of "''- **Name**: x''"] show ?thesis
    by (simp add: parseLLMResponse_indented push_named_def)
qed

text \<open>
  Claim C2, amended. For every text that contains \<open>"- **"\<close> and \<open>"**:"\<close> the parser
  returns at most one record: exactly one, the candidate read by the indented grammar,
  when the text holds a bold all-capitals header (two asterisks, a capital letter, at
  least one more capital letter or white space, two asterisks), and none otherwise.
\<close>

theorem indented_at_most_one_record:
  assumes "includes_str response ''- **''" and "includes_str response ''**:''"
  shows "length (parseLLMResponse response) \<le> 1 \<and>
         parseLLMResponse response =
           (if \<exists>pre c w post. response = pre @ ''**'' @ c # w @ ''**'' @ post \<and>
                 is_upper c \<and> w \<noteq> [] \<and> (\<forall>x \<in> set w. is_upper x \<or> is_space x)
            then [parseIndentedFormat response] else [])"
proof -
  have "parseLLMResponse response =
          (if str_match re_name response \<noteq> None then [parseIndentedFormat response] else [])"
    using name_parseIndentedFormat[of response]
    by (simp add: parseLLMResponse_indented[OF assms] push_named_def)
  then show ?thesis
    unfolding str_match_re_name_iff by simp
qed

text \<open>Claim C2, amended, on a text with the header \<open>**JO**\<close>.\<close>

theorem indented_at_most_one_record_witness:
  "includes_str ''- **JO**: x'' ''- **'' \<and> includes_str ''- **JO**: x'' ''**:'' \<and>
   parseLLMResponse ''- **JO**: x'' = [parseIndentedFormat ''- **JO**: x''] \<and>
   name (parseIndentedFormat ''- **JO**: x'') = ''JO''"
proof -
  have cue: "includes_str ''- **JO**: x'' ''- **''" "includes_str ''- **JO**: x'' ''**:''"
    by (simp_all add: startsWith_def)
  have "''- **JO**: x'' = ''- '' @ ''**'' @ CHR ''J'' # ''O'' @ ''**'' @ '': x'' \<and>
        is_upper CHR ''J'' \<and> ''O'' \<noteq> [] \<and> (\<forall>x \<in> set ''O''. is_upper x \<or> is_space x)"
    by (simp add: is_upper_def)
  then have header: "\<exists>pre c w post. ''- **JO**: x'' = pre @ ''**'' @ c # w @ ''**'' @ post \<and>
                 is_upper c \<and> w \<noteq> [] \<and> (\<forall>x \<in> set w. is_upper x \<or> is_space x)"
    by blast
  have "name (parseIndentedFormat ''- **JO**: x'') = ''JO''"
    by code_simp
  with indented_at_most_one_record[OF cue] header cue show ?thesis
    by simp
qed

subsection \<open>The multi-section form\<close>

lemma named_section_iff:
  "name (parseCandidateSection sect) \<noteq> [] \<longleftrightarrow> contains_header sect"
  unfolding str_match_re_name_iff[symmetric]
  by (simp add: parseCandidateSection_def from_group_re_name)

text \<open>
  Claim C6. For every text that has at least two bold spans and no cue of the indented
  form: the text is cut into sections at exactly those positions, other than its start,
  where a bold all-capitals header begins, and nothing is removed; a section yields a
  non-empty name exactly when it contains such a header; the returned records are the
  parses of exactly those sections, one record per such section and in the order of the
  sections. (The source asks less of the text than two bold spans:
  \<open>parseLLMResponse_sections\<close> needs one \<open>"**"\<close> only.)
\<close>

theorem sections_give_records:
  assumes "\<exists>a b c d e. response = a @ ''**'' @ b @ ''**'' @ c @ ''**'' @ d @ ''**'' @ e"
    and "\<not> (includes_str response ''- **'' \<and> includes_str response ''**:'')"
  shows "concat (str_split re_header response) = response \<and>
         [] \<notin> set (str_split re_header response) \<and>
         (\<forall>n. 0 < n \<and> n < length response \<longrightarrow>
            (n \<in> cut_offsets (str_split re_header response) \<longleftrightarrow>
             starts_with_header (drop n response))) \<and>
         (\<forall>sect. name (parseCandidateSection sect) \<noteq> [] \<longleftrightarrow> contains_header sect) \<and>
         parseLLMResponse response =
           map parseCandidateSection
             (filter contains_header (str_split re_header response)) \<and>
         length (parseLLMResponse response) =
           length (filter contains_header (str_split re_header response))"
proof -
  from assms(1) have inc: "includes_str response ''**''"
    using two_bold_spans_include by blast
  from assms(1) have "response \<noteq> []" by auto
  note cuts = str_split_re_header_cuts[OF this]
  have records: "parseLLMResponse response =
           map parseCandidateSection
             (filter contains_header (str_split re_header response))"
    unfolding parseLLMResponse_sections[OF assms(2) inc] sections_records named_section_iff ..
  have count: "length (parseLLMResponse response) =
                 length (filter contains_header (str_split re_header response))"
    unfolding records by simp
  from cuts have whole: "concat (str_split re_header response) = response"
    and no_empty: "[] \<notin> set (str_split re_header response)"
    and at_headers: "\<forall>n. 0 < n \<and> n < length response \<longrightarrow>
            (n \<in> cut_offsets (str_split re_header response) \<longleftrightarrow>
             starts_with_header (drop n response))"
    by blast+
  have named: "\<forall>sect. name (parseCandidateSection sect) \<noteq> [] \<longleftrightarrow> contains_header sect"
    using named_section_iff by blast
  show ?thesis
    by (intro conjI) (rule whole, rule no_empty, rule at_headers, rule named, rule records,
        rule count)
qed

text \<open>A preamble and two headed sections, evaluated.\<close>

lemma split_example:
  "str_split re_header ''hi **AB** x**CD E** y'' = [''hi '', ''**AB** x'', ''**CD E** y'']"
  by code_simp

lemma section_names_example:
  "name (parseCandidateSection ''hi '') = [] \<and>
   name (parseCandidateSection ''**AB** x'') = ''AB'' \<and>
   name (parseCandidateSection ''**CD E** y'') = ''CD E''"
  by code_simp

text \<open>
  Claim C6 on that text: the cuts fall before the two headers, and there are two
  records, \<open>AB\<close> before \<open>CD E\<close>; the preamble gives none.
\<close>

theorem sections_give_records_witness:
  "str_split re_header ''hi **AB** x**CD E** y'' = [''hi '', ''**AB** x'', ''**CD E** y''] \<and>
   map name (parseLLMResponse ''hi **AB** x**CD E** y'') = [''AB'', ''CD E'']"
proof -
  let ?text = "''hi **AB** x**CD E** y''"
  have "?text = ''hi '' @ ''**'' @ ''AB'' @ ''**'' @ '' x'' @ ''**'' @ ''CD E'' @ ''**'' @ '' y''"
    by simp
  then have spans: "\<exists>a b c d e. ?text = a @ ''**'' @ b @ ''**'' @ c @ ''**'' @ d @ ''**'' @ e"
    by blast
  have no_cue: "\<not> (includes_str ?text ''- **'' \<and> includes_str ?text ''**:'')"
    by (simp add: startsWith_def)
  note facts = sections_give_records[OF spans no_cue]
  from facts have named: "\<And>sect. contains_header sect = (name (parseCandidateSection sect) \<noteq> [])"
    by blast
  from facts have "parseLLMResponse ?text =
      map parseCandidateSection (filter contains_header (str_split re_header ?text))"
    by blast
  then have "parseLLMResponse ?text =
      map parseCandidateSection
        (filter (\<lambda>sect. name (parseCandidateSection sect) \<noteq> []) (str_split re_header ?text))"
    unfolding named .
  then show ?thesis
    by (simp add: split_example section_names_example)
qed

subsection \<open>The fallback form\<close>

lemma two_bold_spans_asterisks:
  "s = a @ ''**'' @ b @ ''**'' @ c @ ''**'' @ d @ ''**'' @ e \<Longrightarrow> 8 \<le> count_list s CHR ''*''"
  by simp

lemma no_bold_no_cue:
  assumes "\<not> includes_str response ''**''"
  shows "\<not> includes_str response ''- **''"
proof
  assume "includes_str response ''- **''"
  then obtain a b where "response = a @ ''- **'' @ b" unfolding includes_str_iff by blast
  then have "response = (a @ ''- '') @ ''**'' @ b" by simp
  then have "includes_str response ''**''" unfolding includes_str_iff by blast
  with assms show False by contradiction
qed

text \<open>
  Claim C7 does not hold as stated. The source enters the multi-section grammar on every
  text that contains \<open>"**"\<close>, also on one with fewer than two bold spans. This text has a
  single bold span and no cue of the indented form, so by the claim the fallback grammar
  would give one record; the source splits it into sections, finds no all-capitals
  header and returns no record.
\<close>

theorem fallback_counterexample:
  "\<not> includes_str ''**Summary** strong Java developer'' ''- **'' \<and>
   \<not> (\<exists>a b c d e. ''**Summary** strong Java developer'' =
          a @ ''**'' @ b @ ''**'' @ c @ ''**'' @ d @ ''**'' @ e) \<and>
   parseLLMResponse ''**Summary** strong Java developer'' = []"
proof -
  have "\<not> includes_str ''**Summary** strong Java developer'' ''- **''"
    by (simp add: startsWith_def)
  moreover have "\<not> (\<exists>a b c d e. ''**Summary** strong Java developer'' =
          a @ ''**'' @ b @ ''**'' @ c @ ''**'' @ d @ ''**'' @ e)"
  proof
    assume "\<exists>a b c d e. ''**Summary** strong Java developer'' =
          a @ ''**'' @ b @ ''**'' @ c @ ''**'' @ d @ ''**'' @ e"
    then obtain a b c d e where "''**Summary** strong Java developer'' =
          a @ ''**'' @ b @ ''**'' @ c @ ''**'' @ d @ ''**'' @ e"
      by blast
    from two_bold_spans_asterisks[OF this] show False by simp
  qed
  moreover have "parseLLMResponse ''**Summary** strong Java developer'' = []"
    by code_simp
  ultimately show ?thesis by blast
qed

text \<open>
  Claim C7, amended. For every text that does not contain \<open>"**"\<close>, which is what the
  source tests, the parser returns exactly one record, the candidate of the fallback
  grammar, and its \<open>additionalInfo\<close> is the input text unchanged.
\<close>

theorem fallback_one_record:
  assumes "\<not> includes_str response ''**''"
  shows "parseLLMResponse response = [parseFallbackFormat response] \<and>
         additionalInfo (parseFallbackFormat response) = response"
proof -
  from no_bold_no_cue[OF assms]
  have a: "\<not> (includes_str response ''- **'' \<and> includes_str response ''**:'')" by simp
  from assms have b: "\<not> (includes_str response ''**'' \<and> includes_str response ''**'')"
    by simp
  show ?thesis
    using name_parseFallbackFormat[of response]
    by (simp add: parseLLMResponse_fallback[OF a b] push_named_def)
       (simp add: parseFallbackFormat_def)
qed

text \<open>Claim C7, amended, on a plain sentence.\<close>

theorem fallback_one_record_witness:
  "parseLLMResponse ''knows JAVA well'' = [parseFallbackFormat ''knows JAVA well''] \<and>
   additionalInfo (parseFallbackFormat ''knows JAVA well'') = ''knows JAVA well'' \<and>
   name (parseFallbackFormat ''knows JAVA well'') = ''JAVA''"
proof -
  have a: "\<not> includes_str ''knows JAVA well'' ''**''"
    by (simp add: startsWith_def)
  have "name (parseFallbackFormat ''knows JAVA well'') = ''JAVA''"
    by code_simp
  with fallback_one_record[OF a] show ?thesis by simp
qed

end
